theory Spec2Isabelle
  imports Main "HOL-Library.Product_Lexorder" "HOL-Library.Multiset"
begin

section \<open>Memory model\<close>

text \<open>
  The C code works on heap nodes reached through pointers, so the embedding keeps an
  explicit store. A node pointer is an address into the node store, \<open>None\<close> is \<open>NULL\<close>.
\<close>

type_synonym avl_p = "nat option"

type_synonym avl_pp = "nat option"

text \<open>
  Modelled from the spec: the node type \<open>avl_t\<close> of the header \<open>avl.h\<close> (value, cached
  height, left and right child), with the field names the source uses.
\<close>

record avl_t =
  data :: int
  height :: int
  left :: avl_p
  right :: avl_p

datatype direction = LEFT | RIGHT

text \<open>The struct \<open>nodedata\<close>: an ancestor and the direction taken below it.\<close>

type_synonym nodedata = "avl_p \<times> direction"

text \<open>
  Modelled from the spec: the logging collaborator \<open>log(level, format, args...)\<close> with
  the levels ERROR and INFO. A call appends one line to the log.
\<close>

datatype level = ERROR | INFO

datatype log_line = Log level string "int list"

text \<open>
  The memory: \<open>ints\<close> is the caller's integer memory (the array argument points into it),
  \<open>nodes\<close> holds the \<open>avl_t\<close> objects by address (\<open>None\<close> once freed), \<open>cells\<close> holds the
  \<open>avl_p\<close> cells allocated for tree handles. \<open>alloc_ok k\<close> tells whether the \<open>k\<close>-th
  allocation request succeeds, \<open>nalloc\<close> counts the requests made so far.
\<close>

record mem =
  ints :: "int list"
  nodes :: "avl_t option list"
  cells :: "avl_p list"
  alloc_ok :: "nat \<Rightarrow> bool"
  nalloc :: nat
  logs :: "log_line list"

text \<open>
  A call either returns a value and a memory, or it crashes: \<open>Crash\<close> stands for the
  undefined behaviour of dereferencing \<open>NULL\<close>, a dangling pointer or reading outside
  the integer memory.
\<close>

datatype 'a outcome = Return 'a mem | Crash

definition bnd :: "'a outcome \<Rightarrow> ('a \<Rightarrow> mem \<Rightarrow> 'b outcome) \<Rightarrow> 'b outcome" where
  "bnd m f = (case m of Crash \<Rightarrow> Crash | Return x s \<Rightarrow> f x s)"

definition log_msg :: "level \<Rightarrow> string \<Rightarrow> int list \<Rightarrow> mem \<Rightarrow> mem" where
  "log_msg lv fmt args s = s\<lparr>logs := logs s @ [Log lv fmt args]\<rparr>"

text \<open>\<open>calloc(1, sizeof(avl_t))\<close>: a fresh zeroed node, or \<open>NULL\<close>.\<close>

definition calloc_avl_t :: "mem \<Rightarrow> avl_p \<times> mem" where
  "calloc_avl_t s =
     (if alloc_ok s (nalloc s)
      then (Some (length (nodes s)),
            s\<lparr>nodes := nodes s @ [Some \<lparr>data = 0, height = 0, left = None, right = None\<rparr>],
              nalloc := nalloc s + 1\<rparr>)
      else (None, s\<lparr>nalloc := nalloc s + 1\<rparr>))"

text \<open>\<open>calloc(1, sizeof(avl_p))\<close>: a fresh cell holding \<open>NULL\<close>, or \<open>NULL\<close>.\<close>

definition calloc_avl_p :: "mem \<Rightarrow> avl_pp \<times> mem" where
  "calloc_avl_p s =
     (if alloc_ok s (nalloc s)
      then (Some (length (cells s)), s\<lparr>cells := cells s @ [None], nalloc := nalloc s + 1\<rparr>)
      else (None, s\<lparr>nalloc := nalloc s + 1\<rparr>))"

text \<open>\<open>malloc(sizeof(nodedata))\<close>: only success or failure matters, the entry itself
  lives in the stack.\<close>

definition malloc_nodedata :: "mem \<Rightarrow> bool \<times> mem" where
  "malloc_nodedata s = (alloc_ok s (nalloc s), s\<lparr>nalloc := nalloc s + 1\<rparr>)"

definition get_node :: "avl_p \<Rightarrow> mem \<Rightarrow> avl_t outcome" where
  "get_node p s =
     (case p of None \<Rightarrow> Crash
      | Some a \<Rightarrow> if a < length (nodes s)
                  then (case nodes s ! a of None \<Rightarrow> Crash | Some n \<Rightarrow> Return n s)
                  else Crash)"

definition put_node :: "avl_p \<Rightarrow> avl_t \<Rightarrow> mem \<Rightarrow> unit outcome" where
  "put_node p n s =
     (case p of None \<Rightarrow> Crash
      | Some a \<Rightarrow> if a < length (nodes s) \<and> nodes s ! a \<noteq> None
                  then Return () (s\<lparr>nodes := (nodes s)[a := Some n]\<rparr>)
                  else Crash)"

definition get_data :: "avl_p \<Rightarrow> mem \<Rightarrow> int outcome" where
  "get_data p s = bnd (get_node p s) (\<lambda>n s. Return (data n) s)"

definition get_height :: "avl_p \<Rightarrow> mem \<Rightarrow> int outcome" where
  "get_height p s = bnd (get_node p s) (\<lambda>n s. Return (height n) s)"

definition get_left :: "avl_p \<Rightarrow> mem \<Rightarrow> avl_p outcome" where
  "get_left p s = bnd (get_node p s) (\<lambda>n s. Return (left n) s)"

definition get_right :: "avl_p \<Rightarrow> mem \<Rightarrow> avl_p outcome" where
  "get_right p s = bnd (get_node p s) (\<lambda>n s. Return (right n) s)"

definition set_data :: "avl_p \<Rightarrow> int \<Rightarrow> mem \<Rightarrow> unit outcome" where
  "set_data p v s = bnd (get_node p s) (\<lambda>n s. put_node p (n\<lparr>data := v\<rparr>) s)"

definition set_height :: "avl_p \<Rightarrow> int \<Rightarrow> mem \<Rightarrow> unit outcome" where
  "set_height p v s = bnd (get_node p s) (\<lambda>n s. put_node p (n\<lparr>height := v\<rparr>) s)"

definition set_left :: "avl_p \<Rightarrow> avl_p \<Rightarrow> mem \<Rightarrow> unit outcome" where
  "set_left p v s = bnd (get_node p s) (\<lambda>n s. put_node p (n\<lparr>left := v\<rparr>) s)"

definition set_right :: "avl_p \<Rightarrow> avl_p \<Rightarrow> mem \<Rightarrow> unit outcome" where
  "set_right p v s = bnd (get_node p s) (\<lambda>n s. put_node p (n\<lparr>right := v\<rparr>) s)"

text \<open>\<open>free(node)\<close>.\<close>

definition free_node :: "avl_p \<Rightarrow> mem \<Rightarrow> unit outcome" where
  "free_node p s =
     (case p of None \<Rightarrow> Return () s
      | Some a \<Rightarrow> if a < length (nodes s) \<and> nodes s ! a \<noteq> None
                  then Return () (s\<lparr>nodes := (nodes s)[a := None]\<rparr>)
                  else Crash)"

text \<open>\<open>*head\<close> read and written.\<close>

definition get_cell :: "avl_pp \<Rightarrow> mem \<Rightarrow> avl_p outcome" where
  "get_cell h s =
     (case h of None \<Rightarrow> Crash
      | Some c \<Rightarrow> if c < length (cells s) then Return (cells s ! c) s else Crash)"

definition set_cell :: "avl_pp \<Rightarrow> avl_p \<Rightarrow> mem \<Rightarrow> unit outcome" where
  "set_cell h v s =
     (case h of None \<Rightarrow> Crash
      | Some c \<Rightarrow> if c < length (cells s) then Return () (s\<lparr>cells := (cells s)[c := v]\<rparr>)
                  else Crash)"

text \<open>\<open>arr[i]\<close>: \<open>arr\<close> points at offset \<open>b\<close> of the integer memory.\<close>

definition arr_at :: "nat option \<Rightarrow> int \<Rightarrow> mem \<Rightarrow> int outcome" where
  "arr_at arr i s =
     (case arr of None \<Rightarrow> Crash
      | Some b \<Rightarrow> if 0 \<le> i \<and> b + nat i < length (ints s)
                  then Return (ints s ! (b + nat i)) s else Crash)"

section \<open>Height and balance factor\<close>

text \<open>The contribution of a child to the height of its parent:
  \<open>child == NULL ? 0 : 1 + child->height\<close>.\<close>

definition child_height :: "avl_p \<Rightarrow> mem \<Rightarrow> int outcome" where
  "child_height c s =
     (if c = None then Return 0 s else bnd (get_height c s) (\<lambda>h s. Return (1 + h) s))"

definition height_c :: "avl_p \<Rightarrow> mem \<Rightarrow> int outcome" where
  "height_c node s =
     (if node = None then Return 0 s
      else bnd (get_left node s) (\<lambda>l s.
           bnd (child_height l s) (\<lambda>lh s.
           bnd (get_right node s) (\<lambda>r s.
           bnd (child_height r s) (\<lambda>rh s.
           Return (if lh \<ge> rh then lh else rh) s)))))"

definition BalanceFactor :: "avl_p \<Rightarrow> mem \<Rightarrow> int outcome" where
  "BalanceFactor node s =
     (if node = None then Return 0 s
      else bnd (get_left node s) (\<lambda>l s.
           bnd (child_height l s) (\<lambda>lh s.
           bnd (get_right node s) (\<lambda>r s.
           bnd (child_height r s) (\<lambda>rh s.
           Return (lh - rh) s)))))"

section \<open>Rotations\<close>

definition RotateRight :: "avl_p \<Rightarrow> mem \<Rightarrow> avl_p outcome" where
  "RotateRight node s =
     bnd (get_left node s) (\<lambda>left_node s.
     bnd (get_right left_node s) (\<lambda>lr s.
     bnd (set_left node lr s) (\<lambda>_ s.
     bnd (set_right left_node node s) (\<lambda>_ s.
     bnd (height_c node s) (\<lambda>h s.
     bnd (set_height node h s) (\<lambda>_ s.
     bnd (height_c left_node s) (\<lambda>h s.
     bnd (set_height left_node h s) (\<lambda>_ s.
     Return left_node s))))))))"

definition RotateLeft :: "avl_p \<Rightarrow> mem \<Rightarrow> avl_p outcome" where
  "RotateLeft node s =
     bnd (get_right node s) (\<lambda>right_node s.
     bnd (get_left right_node s) (\<lambda>rl s.
     bnd (set_right node rl s) (\<lambda>_ s.
     bnd (set_left right_node node s) (\<lambda>_ s.
     bnd (height_c node s) (\<lambda>h s.
     bnd (set_height node h s) (\<lambda>_ s.
     bnd (height_c right_node s) (\<lambda>h s.
     bnd (set_height right_node h s) (\<lambda>_ s.
     Return right_node s))))))))"

definition RightRight :: "avl_p \<Rightarrow> mem \<Rightarrow> avl_p outcome" where
  "RightRight node s = RotateLeft node s"

definition LeftLeft :: "avl_p \<Rightarrow> mem \<Rightarrow> avl_p outcome" where
  "LeftLeft node s = RotateRight node s"

definition LeftRight :: "avl_p \<Rightarrow> mem \<Rightarrow> avl_p outcome" where
  "LeftRight node s =
     bnd (get_left node s) (\<lambda>l s.
     bnd (RotateLeft l s) (\<lambda>l' s.
     bnd (set_left node l' s) (\<lambda>_ s.
     RotateRight node s)))"

definition RightLeft :: "avl_p \<Rightarrow> mem \<Rightarrow> avl_p outcome" where
  "RightLeft node s =
     bnd (get_right node s) (\<lambda>r s.
     bnd (RotateRight r s) (\<lambda>r' s.
     bnd (set_right node r' s) (\<lambda>_ s.
     RotateLeft node s)))"

section \<open>Rebalancing\<close>

text \<open>
  Modelled from the spec: the path stack (\<open>get_stack\<close>, \<open>push\<close>, \<open>pop\<close>,
  \<open>destroy_stack\<close>) is a LIFO sequence; it is a list with its top at the head, and
  \<open>pop\<close> of the empty stack gives \<open>NULL\<close>.
\<close>

definition pop :: "nodedata list \<Rightarrow> nodedata option \<times> nodedata list" where
  "pop stack = (case stack of [] \<Rightarrow> (None, []) | p # rest \<Rightarrow> (Some p, rest))"

definition push :: "nodedata list \<Rightarrow> nodedata \<Rightarrow> nodedata list" where
  "push stack n = n # stack"

text \<open>The reattachment of a rotated subtree: to the recorded side of the popped
  parent, or to \<open>*head\<close> when the stack was empty.\<close>

definition reattach :: "nodedata option \<Rightarrow> avl_pp \<Rightarrow> avl_p \<Rightarrow> mem \<Rightarrow> unit outcome" where
  "reattach p head new s =
     (case p of
        Some (parent, direction) \<Rightarrow>
          if direction = RIGHT then set_right parent new s else set_left parent new s
      | None \<Rightarrow> set_cell head new s)"

definition rebalance ::
  "nodedata list \<Rightarrow> avl_pp \<Rightarrow> avl_p \<Rightarrow> int \<Rightarrow> mem \<Rightarrow> (nodedata list) outcome" where
  "rebalance stack head tmp dat s =
     bnd (BalanceFactor tmp s) (\<lambda>bf s.
     bnd (if bf = - 2 then
            (case pop stack of (p, stack) \<Rightarrow>
               bnd (get_right tmp s) (\<lambda>r s.
               bnd (get_data r s) (\<lambda>rd s.
               bnd (if dat \<ge> rd then RightRight tmp s else RightLeft tmp s) (\<lambda>new s.
               bnd (reattach p head new s) (\<lambda>_ s. Return stack s)))))
          else if bf = 2 then
            (case pop stack of (p, stack) \<Rightarrow>
               bnd (get_left tmp s) (\<lambda>l s.
               bnd (get_data l s) (\<lambda>ld s.
               bnd (if dat < ld then LeftLeft tmp s else LeftRight tmp s) (\<lambda>new s.
               bnd (reattach p head new s) (\<lambda>_ s. Return stack s)))))
          else Return stack s) (\<lambda>stack s.
     bnd (height_c tmp s) (\<lambda>h s.
     bnd (set_height tmp h s) (\<lambda>_ s.
     Return stack s))))"

lemma bnd_Return [simp]: "bnd (Return x s) f = f x s"
  by (simp add: bnd_def)

lemma bnd_Crash [simp]: "bnd Crash f = Crash"
  by (simp add: bnd_def)

lemma bnd_eq_Return:
  "bnd m f = Return y t \<longleftrightarrow> (\<exists>x s. m = Return x s \<and> f x s = Return y t)"
  by (cases m) simp_all


lemma rebalance_length:
  "rebalance stack head tmp dat s = Return stack' s' \<Longrightarrow> length stack' \<le> length stack"
  by (auto simp: rebalance_def pop_def bnd_eq_Return split: if_splits list.splits)

section \<open>Building the tree\<close>

text \<open>The loop \<open>while ((p = pop(stack)) != NULL) { tmp = p->node; free(p);
  rebalance(stack, head, tmp, arr[i]); }\<close>.\<close>

function unwind :: "avl_pp \<Rightarrow> int \<Rightarrow> nodedata list \<Rightarrow> mem \<Rightarrow> (nodedata list) outcome" where
  "unwind head dat stack s =
     (case pop stack of
        (None, stack1) \<Rightarrow> Return stack1 s
      | (Some p, stack1) \<Rightarrow>
          (case rebalance stack1 head (fst p) dat s of
             Crash \<Rightarrow> Crash
           | Return stack2 s2 \<Rightarrow> unwind head dat stack2 s2))"
  by pat_completeness auto
termination
  by (relation "measure (\<lambda>(head, dat, stack, s). length stack)")
     (auto simp: pop_def split: list.splits dest: rebalance_length)

declare unwind.simps [simp del]

text \<open>
  The insertion of the new leaf below \<open>root\<close>, on the left:
  \<open>root->left = calloc(...); root->left->data = arr[i]; root->height = height(root);\<close>
  the unwinding loop; \<open>root = *head\<close>. The result is the new \<open>root\<close> and the stack.
\<close>

definition insert_left ::
  "avl_pp \<Rightarrow> avl_p \<Rightarrow> int \<Rightarrow> nodedata list \<Rightarrow> mem \<Rightarrow> (avl_p \<times> nodedata list) outcome" where
  "insert_left head root v stack s =
     (case calloc_avl_t s of (new, s) \<Rightarrow>
        bnd (set_left root new s) (\<lambda>_ s.
        bnd (get_left root s) (\<lambda>l s.
        bnd (set_data l v s) (\<lambda>_ s.
        bnd (height_c root s) (\<lambda>h s.
        bnd (set_height root h s) (\<lambda>_ s.
        bnd (unwind head v stack s) (\<lambda>stack s.
        bnd (get_cell head s) (\<lambda>root s.
        Return (root, stack) s))))))))"

definition insert_right ::
  "avl_pp \<Rightarrow> avl_p \<Rightarrow> int \<Rightarrow> nodedata list \<Rightarrow> mem \<Rightarrow> (avl_p \<times> nodedata list) outcome" where
  "insert_right head root v stack s =
     (case calloc_avl_t s of (new, s) \<Rightarrow>
        bnd (set_right root new s) (\<lambda>_ s.
        bnd (get_right root s) (\<lambda>r s.
        bnd (set_data r v s) (\<lambda>_ s.
        bnd (height_c root s) (\<lambda>h s.
        bnd (set_height root h s) (\<lambda>_ s.
        bnd (unwind head v stack s) (\<lambda>stack s.
        bnd (get_cell head s) (\<lambda>root s.
        Return (root, stack) s))))))))"

text \<open>
  The loop \<open>while (root)\<close> for the array element \<open>arr[i]\<close>. Nothing bounds the descent
  in an arbitrary memory (the links may form a cycle), so the loop is a partial
  function: \<open>None\<close> means that it runs forever. \<open>arr[i]\<close> is read once per iteration;
  no statement of the loop writes the integer memory.
\<close>

partial_function (option) while_root ::
  "nat option \<Rightarrow> int \<Rightarrow> avl_pp \<Rightarrow> avl_p \<Rightarrow> nodedata list \<Rightarrow> mem
     \<Rightarrow> (avl_p \<times> nodedata list) outcome option" where
  "while_root arr i head root stack s =
     (if root = None then Some (Return (root, stack) s)
      else
        (case arr_at arr i s of
           Crash \<Rightarrow> Some Crash
         | Return v s \<Rightarrow>
             (case get_data root s of
                Crash \<Rightarrow> Some Crash
              | Return d s \<Rightarrow>
                  if v < d then
                    (case get_left root s of
                       Crash \<Rightarrow> Some Crash
                     | Return l s \<Rightarrow>
                         if l = None then Some (insert_left head root v stack s)
                         else
                           (case malloc_nodedata s of
                              (n_ok, s) \<Rightarrow>
                                if \<not> n_ok then Some Crash
                                else while_root arr i head l (push stack (root, LEFT)) s))
                  else
                    (case get_right root s of
                       Crash \<Rightarrow> Some Crash
                     | Return r s \<Rightarrow>
                         if r = None then Some (insert_right head root v stack s)
                         else
                           (case malloc_nodedata s of
                              (n_ok, s) \<Rightarrow>
                                if \<not> n_ok then Some Crash
                                else while_root arr i head r (push stack (root, RIGHT)) s)))))"

declare while_root.simps [code]

text \<open>The loop \<open>for (; i < len; i++)\<close>; \<open>root\<close> and the stack live across its
  iterations.\<close>

function for_i ::
  "nat option \<Rightarrow> int \<Rightarrow> avl_pp \<Rightarrow> int \<Rightarrow> avl_p \<Rightarrow> nodedata list \<Rightarrow> mem
     \<Rightarrow> (avl_p \<times> nodedata list) outcome option" where
  "for_i arr len head i root stack s =
     (if i < len then
        (case while_root arr i head root stack s of
           None \<Rightarrow> None
         | Some Crash \<Rightarrow> Some Crash
         | Some (Return (root, stack) s) \<Rightarrow> for_i arr len head (i + 1) root stack s)
      else Some (Return (root, stack) s))"
  by pat_completeness auto
termination
  by (relation "measure (\<lambda>(arr, len, head, i, root, stack, s). nat (len - i))") auto

declare for_i.simps [simp del]

text \<open>
  The statements of \<open>generate_avl\<close> before its loop: the validity check, the allocation
  of the first node and of the handle. The result \<open>None\<close> is the early \<open>return NULL\<close>
  (after an ERROR line in the log), \<open>Some (head, root)\<close> the values the loop starts from.
  The second \<open>calloc\<close> is unchecked, so \<open>*head = root\<close> is a write through \<open>NULL\<close> when
  it fails.
\<close>

definition generate_avl_init ::
  "nat option \<Rightarrow> int \<Rightarrow> mem \<Rightarrow> (avl_pp \<times> avl_p) option outcome" where
  "generate_avl_init arr len s =
     (if arr = None \<or> len = 0 then Return None (log_msg ERROR ''Invalid array.'' [] s)
      else
        (case calloc_avl_t s of (root, s) \<Rightarrow>
           if root = None then Return None (log_msg ERROR ''calloc failed.'' [] s)
           else
             bnd (arr_at arr 0 s) (\<lambda>v s.
             bnd (set_data root v s) (\<lambda>_ s.
             (case calloc_avl_p s of (head, s) \<Rightarrow>
                bnd (set_cell head root s) (\<lambda>_ s.
                Return (Some (head, root)) s))))))"

text \<open>\<open>generate_avl\<close>: the result is the handle \<open>head\<close>, or \<open>NULL\<close>.\<close>

definition generate_avl :: "nat option \<Rightarrow> int \<Rightarrow> mem \<Rightarrow> avl_pp outcome option" where
  "generate_avl arr len s =
     (let stack = [] in
      case generate_avl_init arr len s of
        Crash \<Rightarrow> Some Crash
      | Return None s \<Rightarrow> Some (Return None s)
      | Return (Some (head, root)) s \<Rightarrow>
          (case for_i arr len head 1 root stack s of
             None \<Rightarrow> None
           | Some Crash \<Rightarrow> Some Crash
           | Some (Return _ s) \<Rightarrow> Some (Return head s)))"

section \<open>Deleting and printing\<close>

partial_function (option) delete_avl :: "avl_p \<Rightarrow> mem \<Rightarrow> int outcome option" where
  "delete_avl root s =
     (if root = None then Some (Return (- 1) (log_msg ERROR ''root invalid.'' [] s))
      else
        (case get_left root s of
           Crash \<Rightarrow> Some Crash
         | Return l s \<Rightarrow>
             Option.bind (if l \<noteq> None then delete_avl l s else Some (Return 0 s)) (\<lambda>o1.
               case o1 of
                 Crash \<Rightarrow> Some Crash
               | Return c1 s \<Rightarrow>
                   (case get_right root s of
                      Crash \<Rightarrow> Some Crash
                    | Return r s \<Rightarrow>
                        Option.bind (if r \<noteq> None then delete_avl r s else Some (Return 0 s)) (\<lambda>o2.
                          case o2 of
                            Crash \<Rightarrow> Some Crash
                          | Return c2 s \<Rightarrow>
                              (case free_node root s of
                                 Crash \<Rightarrow> Some Crash
                               | Return _ s \<Rightarrow> Some (Return (0 + c1 + c2 + 1) s)))))))"

partial_function (option) print_avl :: "avl_p \<Rightarrow> avl_p \<Rightarrow> mem \<Rightarrow> int outcome option" where
  "print_avl root parent s =
     (if root = None then Some (Return (- 1) (log_msg ERROR ''root invalid.'' [] s))
      else
        (case get_data root s of
           Crash \<Rightarrow> Some Crash
         | Return d s \<Rightarrow>
             (case get_data parent s of
                Crash \<Rightarrow> Some Crash
              | Return pd s \<Rightarrow>
                  (case get_left root (log_msg INFO ''data: %6d,  parent: %6d'' [d, pd] s) of
                     Crash \<Rightarrow> Some Crash
                   | Return l s \<Rightarrow>
                       Option.bind
                         (if l \<noteq> None then print_avl l root (log_msg INFO ''LEFT.'' [] s)
                          else Some (Return 0 s)) (\<lambda>o1.
                         case o1 of
                           Crash \<Rightarrow> Some Crash
                         | Return c1 s \<Rightarrow>
                             (case get_right root s of
                                Crash \<Rightarrow> Some Crash
                              | Return r s \<Rightarrow>
                                  Option.bind
                                    (if r \<noteq> None then print_avl r root (log_msg INFO ''RIGHT.'' [] s)
                                     else Some (Return 0 s)) (\<lambda>o2.
                                    case o2 of
                                      Crash \<Rightarrow> Some Crash
                                    | Return c2 s \<Rightarrow> Some (Return (1 + c1 + c2) s))))))))"

declare delete_avl.simps [code]

declare print_avl.simps [code]

section \<open>The tree a pointer stands for\<close>

text \<open>
  An abstract tree records, for every node, its address, its value and its stored
  height. \<open>tree_at h t\<close> says that the node store \<open>h\<close> holds the tree \<open>t\<close>: every node of
  \<open>t\<close> is an allocated object with these field values and with the child pointers of
  \<open>t\<close>. The root pointer and the store determine \<open>t\<close>.
\<close>

datatype atree = Lf | Nd atree nat int int atree

fun ptr :: "atree \<Rightarrow> avl_p" where
  "ptr Lf = None"
| "ptr (Nd l a d k r) = Some a"

text \<open>The addresses of the nodes and their values, in inorder.\<close>

fun addrs :: "atree \<Rightarrow> nat list" where
  "addrs Lf = []"
| "addrs (Nd l a d k r) = addrs l @ a # addrs r"

fun inorder :: "atree \<Rightarrow> int list" where
  "inorder Lf = []"
| "inorder (Nd l a d k r) = inorder l @ d # inorder r"

fun tree_at :: "avl_t option list \<Rightarrow> atree \<Rightarrow> bool" where
  "tree_at h Lf = True"
| "tree_at h (Nd l a d k r) =
     (a < length h \<and> h ! a = Some \<lparr>data = d, height = k, left = ptr l, right = ptr r\<rparr>
      \<and> tree_at h l \<and> tree_at h r)"

text \<open>The handle \<open>head\<close> holds the root pointer of the tree \<open>t\<close>, whose nodes are
  pairwise distinct objects of the memory.\<close>

definition holds_tree :: "mem \<Rightarrow> avl_pp \<Rightarrow> atree \<Rightarrow> bool" where
  "holds_tree s head t =
     (case head of None \<Rightarrow> False
      | Some c \<Rightarrow> c < length (cells s) \<and> cells s ! c = ptr t \<and> tree_at (nodes s) t
                  \<and> distinct (addrs t))"

text \<open>The tree without its addresses: values, stored heights and shape.\<close>

datatype shape = Empty | Node shape int int shape

fun erase :: "atree \<Rightarrow> shape" where
  "erase Lf = Empty"
| "erase (Nd l a d k r) = Node (erase l) d k (erase r)"

text \<open>A memory for concrete runs: the array at offset 0 of the integer memory, no
  node allocated yet, an allocator that never fails.\<close>

definition mem0 :: "int list \<Rightarrow> mem" where
  "mem0 xs = \<lparr>ints = xs, nodes = [], cells = [], alloc_ok = (\<lambda>_. True), nalloc = 0, logs = []\<rparr>"

text \<open>What a run of \<open>generate_avl\<close> leaves: the handle, the node store and the cells.\<close>

definition observe ::
  "avl_pp outcome option \<Rightarrow> (avl_pp \<times> avl_t option list \<times> avl_p list) option" where
  "observe r = (case r of Some (Return h s) \<Rightarrow> Some (h, nodes s, cells s) | _ \<Rightarrow> None)"

lemma observeD:
  "observe r = Some (h, ns, cs) \<Longrightarrow> \<exists>s. r = Some (Return h s) \<and> nodes s = ns \<and> cells s = cs"
  by (auto simp: observe_def split: option.splits outcome.splits)

section \<open>What deleting and printing do to a tree\<close>

text \<open>The number of nodes, the lines \<open>print_avl\<close> logs for a tree below a parent with
  value \<open>pd\<close>, the addresses in the order \<open>delete_avl\<close> frees them, and the node store
  after freeing a list of addresses.\<close>

fun num_nodes :: "atree \<Rightarrow> int" where
  "num_nodes Lf = 0"
| "num_nodes (Nd l a d k r) = 1 + num_nodes l + num_nodes r"

fun print_log :: "int \<Rightarrow> atree \<Rightarrow> log_line list" where
  "print_log pd Lf = []"
| "print_log pd (Nd l a d k r) =
     Log INFO ''data: %6d,  parent: %6d'' [d, pd]
     # (if l = Lf then [] else Log INFO ''LEFT.'' [] # print_log d l)
     @ (if r = Lf then [] else Log INFO ''RIGHT.'' [] # print_log d r)"

fun post_addrs :: "atree \<Rightarrow> nat list" where
  "post_addrs Lf = []"
| "post_addrs (Nd l a d k r) = post_addrs l @ post_addrs r @ [a]"

fun release :: "nat list \<Rightarrow> avl_t option list \<Rightarrow> avl_t option list" where
  "release [] h = h"
| "release (a # as) h = release as (h[a := None])"


section \<open>The algorithm on abstract trees\<close>

text \<open>
  The functions of this section are the functions of the C code read on abstract trees:
  each takes the tree a pointer stands for and gives the tree the same pointer (or the
  returned one) stands for afterwards, \<open>None\<close> where the C code dereferences \<open>NULL\<close>. They
  are the link between the code on the memory and the properties of trees: the code is
  shown to follow them step by step.

  \<open>ch t\<close> is what \<open>height\<close> and \<open>BalanceFactor\<close> compute for a child:
  \<open>child == NULL ? 0 : 1 + child->height\<close>; \<open>set_h\<close> is \<open>node->height = height(node)\<close>.
\<close>

fun ch :: "atree \<Rightarrow> int" where
  "ch Lf = 0"
| "ch (Nd l a d k r) = 1 + k"

fun set_h :: "atree \<Rightarrow> atree" where
  "set_h Lf = Lf"
| "set_h (Nd l a d k r) = Nd l a d (if ch l \<ge> ch r then ch l else ch r) r"

text \<open>The rotations. A rotation refreshes the stored height of the demoted node, then
  that of the promoted node.\<close>

fun a_RotateRight :: "atree \<Rightarrow> atree option" where
  "a_RotateRight (Nd (Nd ll b e m lr) a d k r) =
     Some (set_h (Nd ll b e m (set_h (Nd lr a d k r))))"
| "a_RotateRight _ = None"

fun a_RotateLeft :: "atree \<Rightarrow> atree option" where
  "a_RotateLeft (Nd l a d k (Nd rl b e m rr)) =
     Some (set_h (Nd (set_h (Nd l a d k rl)) b e m rr))"
| "a_RotateLeft _ = None"

fun a_LeftRight :: "atree \<Rightarrow> atree option" where
  "a_LeftRight Lf = None"
| "a_LeftRight (Nd l a d k r) =
     (case a_RotateLeft l of None \<Rightarrow> None | Some l' \<Rightarrow> a_RotateRight (Nd l' a d k r))"

fun a_RightLeft :: "atree \<Rightarrow> atree option" where
  "a_RightLeft Lf = None"
| "a_RightLeft (Nd l a d k r) =
     (case a_RotateRight r of None \<Rightarrow> None | Some r' \<Rightarrow> a_RotateLeft (Nd l a d k r'))"

text \<open>
  \<open>rebalance\<close> ends with \<open>tmp->height = height(tmp)\<close>. After a rotation \<open>tmp\<close> is the left
  child (after a left rotation) or the right child (after a right rotation) of the
  new subtree root. The result of \<open>a_rebalance\<close> tells whether a rotation took place.
\<close>

fun fix_left :: "atree \<Rightarrow> atree" where
  "fix_left Lf = Lf"
| "fix_left (Nd l a d k r) = Nd (set_h l) a d k r"

fun fix_right :: "atree \<Rightarrow> atree" where
  "fix_right Lf = Lf"
| "fix_right (Nd l a d k r) = Nd l a d k (set_h r)"

fun a_rebalance :: "int \<Rightarrow> atree \<Rightarrow> (bool \<times> atree) option" where
  "a_rebalance v Lf = None"
| "a_rebalance v (Nd l a d k r) =
     (if ch l - ch r = - 2 then
        (case r of
           Lf \<Rightarrow> None
         | Nd rl b e m rr \<Rightarrow>
             map_option (\<lambda>t. (True, fix_left t))
               (if v \<ge> e then a_RotateLeft (Nd l a d k r) else a_RightLeft (Nd l a d k r)))
      else if ch l - ch r = 2 then
        (case l of
           Lf \<Rightarrow> None
         | Nd ll b e m lr \<Rightarrow>
             map_option (\<lambda>t. (True, fix_right t))
               (if v < e then a_RotateRight (Nd l a d k r) else a_LeftRight (Nd l a d k r)))
      else Some (False, set_h (Nd l a d k r)))"

text \<open>
  The path stack. An entry stands for an ancestor: its address, value and stored height,
  the direction taken below it, and the subtree on its other side. \<open>plug fs c\<close> is the
  whole tree when \<open>c\<close> is the subtree below the top entry of \<open>fs\<close>.
\<close>

datatype frame = Fr direction nat int int atree

fun plug1 :: "frame \<Rightarrow> atree \<Rightarrow> atree" where
  "plug1 (Fr LEFT a d k sib) c = Nd c a d k sib"
| "plug1 (Fr RIGHT a d k sib) c = Nd sib a d k c"

fun plug :: "frame list \<Rightarrow> atree \<Rightarrow> atree" where
  "plug [] c = c"
| "plug (f # fs) c = plug fs (plug1 f c)"

text \<open>
  The unwinding loop: the popped ancestor is rebalanced; after a rotation \<open>rebalance\<close>
  has popped the parent too and attached the new subtree root to it (or to the handle).
\<close>

fun a_unwind :: "int \<Rightarrow> frame list \<Rightarrow> atree \<Rightarrow> atree option" where
  "a_unwind v [] c = Some c"
| "a_unwind v (f # fs) c =
     (case a_rebalance v (plug1 f c) of
        None \<Rightarrow> None
      | Some (False, c') \<Rightarrow> a_unwind v fs c'
      | Some (True, c') \<Rightarrow>
          (case fs of [] \<Rightarrow> Some c' | f' # fs' \<Rightarrow> a_unwind v fs' (plug1 f' c')))"

text \<open>The descent for the value \<open>v\<close>, whose node gets the fresh address \<open>n\<close>.\<close>

fun a_while_root :: "int \<Rightarrow> nat \<Rightarrow> frame list \<Rightarrow> atree \<Rightarrow> atree option" where
  "a_while_root v n fs Lf = None"
| "a_while_root v n fs (Nd l a d k r) =
     (if v < d then
        (if l = Lf then a_unwind v fs (set_h (Nd (Nd Lf n v 0 Lf) a d k r))
         else a_while_root v n (Fr LEFT a d k r # fs) l)
      else
        (if r = Lf then a_unwind v fs (set_h (Nd l a d k (Nd Lf n v 0 Lf)))
         else a_while_root v n (Fr RIGHT a d k l # fs) r))"

section \<open>Properties of trees\<close>

text \<open>
  The height of a tree (0 for the empty tree, so a node stores its height minus one),
  stored heights that agree with it, and the balance of every node.
\<close>

fun hgt :: "atree \<Rightarrow> nat" where
  "hgt Lf = 0"
| "hgt (Nd l a d k r) = Suc (max (hgt l) (hgt r))"

fun hts_ok :: "atree \<Rightarrow> bool" where
  "hts_ok Lf = True"
| "hts_ok (Nd l a d k r) = (k = int (max (hgt l) (hgt r)) \<and> hts_ok l \<and> hts_ok r)"

fun avl :: "atree \<Rightarrow> bool" where
  "avl Lf = True"
| "avl (Nd l a d k r) = (hgt l \<le> hgt r + 1 \<and> hgt r \<le> hgt l + 1 \<and> avl l \<and> avl r)"

text \<open>
  What the unwinding relies on: a subtree that the insertion of \<open>v\<close> made higher is
  strictly higher on the side \<open>v\<close> went to; and the direction of every stack entry is
  the one the comparison with \<open>v\<close> chose.
\<close>

fun lean :: "int \<Rightarrow> atree \<Rightarrow> bool" where
  "lean v Lf = False"
| "lean v (Nd l a d k r) = (if v < d then hgt r < hgt l else hgt l < hgt r)"

definition grown :: "int \<Rightarrow> atree \<Rightarrow> atree \<Rightarrow> bool" where
  "grown v c c0 = (hgt c = hgt c0 \<or> (hgt c = Suc (hgt c0) \<and> lean v c))"

fun routed :: "int \<Rightarrow> frame \<Rightarrow> bool" where
  "routed v (Fr dir a d k sib) = (dir = LEFT \<longleftrightarrow> v < d)"

text \<open>
  The inorder sequence of (value, address) pairs, and the insertion of a new leaf by
  the comparisons of the descent alone. Nodes are allocated in the order of insertion,
  so among equal values the address tells which was inserted first.
\<close>

fun pairs :: "atree \<Rightarrow> (int \<times> nat) list" where
  "pairs Lf = []"
| "pairs (Nd l a d k r) = pairs l @ (d, a) # pairs r"

fun bst_ins :: "int \<Rightarrow> nat \<Rightarrow> atree \<Rightarrow> atree" where
  "bst_ins v n Lf = Nd Lf n v 0 Lf"
| "bst_ins v n (Nd l a d k r) =
     (if v < d then Nd (bst_ins v n l) a d k r else Nd l a d k (bst_ins v n r))"

text \<open>
  The ordering invariant as the specification states it (left values strictly less,
  right values greater or equal), and with both sides non-strict.
\<close>

fun bst :: "atree \<Rightarrow> bool" where
  "bst Lf = True"
| "bst (Nd l a d k r) =
     ((\<forall>x \<in> set (inorder l). x < d) \<and> (\<forall>x \<in> set (inorder r). d \<le> x) \<and> bst l \<and> bst r)"

fun bst_le :: "atree \<Rightarrow> bool" where
  "bst_le Lf = True"
| "bst_le (Nd l a d k r) =
     ((\<forall>x \<in> set (inorder l). x \<le> d) \<and> (\<forall>x \<in> set (inorder r). d \<le> x) \<and> bst_le l \<and> bst_le r)"

text \<open>
  The recursively defined height of the specification: 0 for a node without children,
  otherwise 1 plus the maximum over the children that are present.
\<close>

fun rec_height :: "atree \<Rightarrow> int" where
  "rec_height Lf = 0"
| "rec_height (Nd l a d k r) =
     (if l = Lf \<and> r = Lf then 0
      else if l = Lf then 1 + rec_height r
      else if r = Lf then 1 + rec_height l
      else 1 + max (rec_height l) (rec_height r))"

fun heights_cached :: "atree \<Rightarrow> bool" where
  "heights_cached Lf = True"
| "heights_cached (Nd l a d k r) =
     (k = rec_height (Nd l a d k r) \<and> heights_cached l \<and> heights_cached r)"

text \<open>Every node's balance factor, as \<open>BalanceFactor\<close> computes it on the memory, is
  -1, 0 or 1.\<close>

fun all_balanced :: "mem \<Rightarrow> atree \<Rightarrow> bool" where
  "all_balanced s Lf = True"
| "all_balanced s (Nd l a d k r) =
     ((case BalanceFactor (Some a) s of Crash \<Rightarrow> False | Return bf _ \<Rightarrow> - 1 \<le> bf \<and> bf \<le> 1)
      \<and> all_balanced s l \<and> all_balanced s r)"

section \<open>Steps of the code on the memory\<close>

text \<open>
  \<open>tree_step s t s' t'\<close>: the memory \<open>s'\<close> holds the tree \<open>t'\<close> where \<open>s\<close> held \<open>t\<close>; the
  nodes of \<open>t'\<close> are nodes of \<open>t\<close> or newly allocated, and nothing outside \<open>t\<close> changed.
\<close>

definition tree_step :: "mem \<Rightarrow> atree \<Rightarrow> mem \<Rightarrow> atree \<Rightarrow> bool" where
  "tree_step s t s' t' \<longleftrightarrow>
     tree_at (nodes s') t' \<and> distinct (addrs t')
     \<and> length (nodes s) \<le> length (nodes s')
     \<and> (\<forall>x \<in> set (addrs t'). x \<in> set (addrs t) \<or> length (nodes s) \<le> x)
     \<and> (\<forall>x < length (nodes s). x \<notin> set (addrs t) \<longrightarrow> nodes s' ! x = nodes s ! x)
     \<and> cells s' = cells s \<and> ints s' = ints s \<and> alloc_ok s' = alloc_ok s"

text \<open>\<open>node->height = height(node)\<close>.\<close>

definition refresh :: "avl_p \<Rightarrow> mem \<Rightarrow> unit outcome" where
  "refresh p s = bnd (height_c p s) (\<lambda>h s. set_height p h s)"

text \<open>The stack entry of the C code for an abstract entry.\<close>

fun entry :: "frame \<Rightarrow> nodedata" where
  "entry (Fr dir a d k sib) = (Some a, dir)"

text \<open>What a step keeps: the sizes of the stores, the integer memory and the allocator
  (\<open>kept\<close>), or the same with one node more (\<open>grew\<close>).\<close>

definition kept :: "mem \<Rightarrow> mem \<Rightarrow> bool" where
  "kept s s' \<longleftrightarrow> length (nodes s') = length (nodes s) \<and> length (cells s') = length (cells s)
     \<and> ints s' = ints s \<and> alloc_ok s' = alloc_ok s"

definition grew :: "mem \<Rightarrow> mem \<Rightarrow> bool" where
  "grew s s' \<longleftrightarrow> length (nodes s') = Suc (length (nodes s)) \<and> length (cells s') = length (cells s)
     \<and> ints s' = ints s \<and> alloc_ok s' = alloc_ok s"

section \<open>The loop of \<open>generate_avl\<close>\<close>

text \<open>The contents of an array of \<open>len\<close> integers at offset \<open>b\<close>, and the condition that
  the array lies within the integer memory.\<close>

definition arr_vals :: "mem \<Rightarrow> nat \<Rightarrow> int \<Rightarrow> int list" where
  "arr_vals s b len = take (nat len) (drop b (ints s))"

definition valid_array :: "mem \<Rightarrow> nat option \<Rightarrow> int \<Rightarrow> bool" where
  "valid_array s arr len =
     (case arr of None \<Rightarrow> False | Some b \<Rightarrow> 0 < len \<and> b + nat len \<le> length (ints s))"

text \<open>
  The invariant of the loop after \<open>k\<close> values: the handle holds a balanced tree with
  exact stored heights, whose inorder sequence of (value, address) pairs is sorted and
  consists of the first \<open>k\<close> array elements, the \<open>j\<close>-th at address \<open>n0 + j\<close>.
\<close>

definition build_inv ::
  "int list \<Rightarrow> nat \<Rightarrow> mem \<Rightarrow> avl_pp \<Rightarrow> nat \<Rightarrow> mem \<Rightarrow> atree \<Rightarrow> bool" where
  "build_inv vals n0 s0 head k s T \<longleftrightarrow>
     holds_tree s head T \<and> T \<noteq> Lf \<and> avl T \<and> hts_ok T \<and> sorted (pairs T)
     \<and> set (pairs T) = (\<lambda>j. (vals ! j, n0 + j)) ` {..<k}
     \<and> length (nodes s) = n0 + k \<and> ints s = ints s0 \<and> (\<forall>j. alloc_ok s j)"

text \<open>
  \<open>after_each_insertion arr len s P\<close>: the call \<open>generate_avl arr len\<close> on the memory \<open>s\<close>
  reaches its loop, and for every \<open>k\<close> from 1 to \<open>len\<close> the loop reaches \<open>i = k\<close> (the
  values \<open>arr[0], ..., arr[k - 1]\<close> inserted and rebalanced) in a memory \<open>s_k\<close> with an empty
  stack, from where the rest of the loop runs, and \<open>P s_k head\<close> holds; the call then
  returns the handle \<open>head\<close> in a memory that satisfies \<open>P\<close> too.
\<close>

definition after_each_insertion ::
  "nat option \<Rightarrow> int \<Rightarrow> mem \<Rightarrow> (mem \<Rightarrow> avl_pp \<Rightarrow> bool) \<Rightarrow> bool" where
  "after_each_insertion arr len s P \<longleftrightarrow>
     (\<exists>head root s0.
        generate_avl_init arr len s = Return (Some (head, root)) s0
        \<and> (\<forall>k. 1 \<le> k \<and> k \<le> len \<longrightarrow>
              (\<exists>root_k s_k.
                 for_i arr k head 1 root [] s0 = Some (Return (root_k, []) s_k)
                 \<and> for_i arr len head 1 root [] s0 = for_i arr len head k root_k [] s_k
                 \<and> P s_k head))
        \<and> (\<exists>root' s'.
              for_i arr len head 1 root [] s0 = Some (Return (root', []) s')
              \<and> generate_avl arr len s = Some (Return head s')
              \<and> P s' head))"

section \<open>The integer memory is never written\<close>

lemma get_node_ints: "get_node p s = Return n s' \<Longrightarrow> s' = s"
  by (auto simp: get_node_def split: option.splits if_splits)

lemma put_node_ints: "put_node p n s = Return u s' \<Longrightarrow> ints s' = ints s"
  by (auto simp: put_node_def split: option.splits if_splits)

lemma getters_ints:
  "get_data p s = Return x s' \<Longrightarrow> s' = s"
  "get_height p s = Return x s' \<Longrightarrow> s' = s"
  "get_left p s = Return y s' \<Longrightarrow> s' = s"
  "get_right p s = Return y s' \<Longrightarrow> s' = s"
  "get_cell h s = Return y s' \<Longrightarrow> s' = s"
  "arr_at arr i s = Return x s' \<Longrightarrow> s' = s"
  by (auto simp: get_data_def get_height_def get_left_def get_right_def get_cell_def arr_at_def
      bnd_eq_Return split: option.splits if_splits dest: get_node_ints)

lemma setters_ints:
  "set_data p x s = Return u s' \<Longrightarrow> ints s' = ints s"
  "set_height p x s = Return u s' \<Longrightarrow> ints s' = ints s"
  "set_left p y s = Return u s' \<Longrightarrow> ints s' = ints s"
  "set_right p y s = Return u s' \<Longrightarrow> ints s' = ints s"
  "set_cell h y s = Return u s' \<Longrightarrow> ints s' = ints s"
  by (auto simp: set_data_def set_height_def set_left_def set_right_def set_cell_def
      bnd_eq_Return split: option.splits if_splits dest: get_node_ints put_node_ints)

lemma alloc_ints:
  "ints (snd (calloc_avl_t s)) = ints s"
  "ints (snd (calloc_avl_p s)) = ints s"
  "ints (snd (malloc_nodedata s)) = ints s"
  by (auto simp: calloc_avl_t_def calloc_avl_p_def malloc_nodedata_def split: if_splits)

lemma child_height_ints: "child_height c s = Return x s' \<Longrightarrow> s' = s"
  by (auto simp: child_height_def bnd_eq_Return split: if_splits dest: getters_ints)

lemma height_c_ints: "height_c p s = Return x s' \<Longrightarrow> s' = s"
  by (auto simp: height_c_def bnd_eq_Return split: if_splits dest!: getters_ints child_height_ints)

lemma BalanceFactor_ints: "BalanceFactor p s = Return x s' \<Longrightarrow> s' = s"
  by (auto simp: BalanceFactor_def bnd_eq_Return split: if_splits dest!: getters_ints child_height_ints)

lemma RotateRight_ints: "RotateRight p s = Return q s' \<Longrightarrow> ints s' = ints s"
  by (auto simp: RotateRight_def bnd_eq_Return dest!: getters_ints height_c_ints setters_ints)

lemma RotateLeft_ints: "RotateLeft p s = Return q s' \<Longrightarrow> ints s' = ints s"
  by (auto simp: RotateLeft_def bnd_eq_Return dest!: getters_ints height_c_ints setters_ints)

lemma LeftRight_ints: "LeftRight p s = Return q s' \<Longrightarrow> ints s' = ints s"
  by (auto simp: LeftRight_def bnd_eq_Return
      dest!: getters_ints setters_ints RotateRight_ints RotateLeft_ints)

lemma RightLeft_ints: "RightLeft p s = Return q s' \<Longrightarrow> ints s' = ints s"
  by (auto simp: RightLeft_def bnd_eq_Return
      dest!: getters_ints setters_ints RotateRight_ints RotateLeft_ints)

lemma reattach_ints: "reattach p head new s = Return u s' \<Longrightarrow> ints s' = ints s"
  by (auto simp: reattach_def split: option.splits if_splits dest: setters_ints)

lemma rebalance_ints: "rebalance stack head tmp dat s = Return st s' \<Longrightarrow> ints s' = ints s"
  by (auto simp: rebalance_def bnd_eq_Return RightRight_def LeftLeft_def
      split: if_splits prod.splits
      dest!: getters_ints setters_ints RotateRight_ints RotateLeft_ints LeftRight_ints
        RightLeft_ints reattach_ints BalanceFactor_ints height_c_ints)

lemma unwind_ints: "unwind head dat stack s = Return st s' \<Longrightarrow> ints s' = ints s"
proof (induction head dat stack s rule: unwind.induct)
  case (1 head dat stack s)
  show ?case
  proof (cases stack)
    case Nil
    with "1.prems" show ?thesis by (subst (asm) unwind.simps) (simp add: pop_def)
  next
    case (Cons p rest)
    with "1.prems" obtain st2 s2 where
      r: "rebalance rest head (fst p) dat s = Return st2 s2"
      and u: "unwind head dat st2 s2 = Return st s'"
      by (subst (asm) unwind.simps) (auto simp: pop_def split: outcome.splits)
    from "1.IH" [of "Some p" rest p st2 s2] Cons r u
    have "ints s' = ints s2" by (simp add: pop_def)
    with rebalance_ints [OF r] show ?thesis by simp
  qed
qed

lemma insert_left_ints: "insert_left head root v stack s = Return x s' \<Longrightarrow> ints s' = ints s"
  by (auto simp: insert_left_def bnd_eq_Return case_prod_unfold alloc_ints
      dest!: getters_ints setters_ints height_c_ints unwind_ints)

lemma insert_right_ints: "insert_right head root v stack s = Return x s' \<Longrightarrow> ints s' = ints s"
  by (auto simp: insert_right_def bnd_eq_Return case_prod_unfold alloc_ints
      dest!: getters_ints setters_ints height_c_ints unwind_ints)

lemma while_root_ints_aux:
  "while_root arr i head root stack s = Some y \<Longrightarrow> (\<forall>x s'. y = Return x s' \<longrightarrow> ints s' = ints s)"
proof (induction rule: while_root.raw_induct [rotated, consumes 1])
  case (1 while_root arr i head root stack s y)
  from "1.hyps" show ?case
    by (auto simp: case_prod_unfold alloc_ints split: if_splits outcome.splits
        dest!: getters_ints insert_left_ints insert_right_ints "1.IH")
qed

lemma while_root_ints:
  "while_root arr i head root stack s = Some y \<Longrightarrow> y = Return x s' \<Longrightarrow> ints s' = ints s"
  using while_root_ints_aux by blast

lemma for_i_ints:
  "for_i arr len head i root stack s = Some (Return x s') \<Longrightarrow> ints s' = ints s"
proof (induction arr len head i root stack s rule: for_i.induct)
  case (1 arr len head i root stack s)
  show ?case
  proof (cases "i < len")
    case False
    with "1.prems" show ?thesis by (subst (asm) for_i.simps) simp
  next
    case True
    with "1.prems" obtain r1 st1 s1 where
      w: "while_root arr i head root stack s = Some (Return (r1, st1) s1)"
      and f: "for_i arr len head (i + 1) r1 st1 s1 = Some (Return x s')"
      by (subst (asm) for_i.simps) (auto split: option.splits outcome.splits)
    from "1.IH" [OF True w refl refl f] while_root_ints [OF w refl]
    show ?thesis by simp
  qed
qed

lemma generate_avl_init_ints:
  "generate_avl_init arr len s = Return x s' \<Longrightarrow> ints s' = ints s"
  by (auto simp: generate_avl_init_def log_msg_def bnd_eq_Return case_prod_unfold alloc_ints
      split: if_splits dest!: getters_ints setters_ints)


section \<open>Deleting and printing a tree\<close>

lemma get_node_Some:
  "a < length (nodes s) \<Longrightarrow> nodes s ! a = Some n \<Longrightarrow> get_node (Some a) s = Return n s"
  by (simp add: get_node_def)

lemma tree_at_addr_valid: "tree_at h t \<Longrightarrow> a \<in> set (addrs t) \<Longrightarrow> a < length h"
  by (induction t) auto

lemma ptr_eq_None [simp]: "ptr t = None \<longleftrightarrow> t = Lf"
  by (cases t) simp_all

lemma num_nodes_pos: "t \<noteq> Lf \<Longrightarrow> 1 \<le> num_nodes t"
  "0 \<le> num_nodes t"
  by (induction t) auto

lemma print_log_INFO: "Log ERROR fmt args \<notin> set (print_log pd t)"
  by (induction t arbitrary: pd) auto

lemma nodes_log_msg [simp]: "nodes (log_msg lv fmt args s) = nodes s"
  by (simp add: log_msg_def)

lemma print_avl_tree:
  "tree_at (nodes s) t \<Longrightarrow> t \<noteq> Lf \<Longrightarrow> get_data parent s = Return pd s \<Longrightarrow>
   print_avl (ptr t) parent s = Some (Return (num_nodes t) (s\<lparr>logs := logs s @ print_log pd t\<rparr>))"
proof (induction t arbitrary: s parent pd)
  case Lf
  then show ?case by simp
next
  case (Nd l a d k r)
  let ?s1 = "log_msg INFO ''data: %6d,  parent: %6d'' [d, pd] s"
  from Nd.prems have na: "a < length (nodes s)"
    "nodes s ! a = Some \<lparr>data = d, height = k, left = ptr l, right = ptr r\<rparr>"
    and tl: "tree_at (nodes s) l" and tr: "tree_at (nodes s) r"
    by simp_all
  have gd: "\<And>s'. nodes s' = nodes s \<Longrightarrow> get_data (Some a) s' = Return d s'"
    "\<And>s'. nodes s' = nodes s \<Longrightarrow> get_left (Some a) s' = Return (ptr l) s'"
    "\<And>s'. nodes s' = nodes s \<Longrightarrow> get_right (Some a) s' = Return (ptr r) s'"
    using na by (simp_all add: get_data_def get_left_def get_right_def get_node_def)
  define s2 where "s2 = (if l = Lf then ?s1 else
     (log_msg INFO ''LEFT.'' [] ?s1)\<lparr>logs := logs (log_msg INFO ''LEFT.'' [] ?s1) @ print_log d l\<rparr>)"
  have left_part: "(if ptr l \<noteq> None then print_avl (ptr l) (Some a) (log_msg INFO ''LEFT.'' [] ?s1)
          else Some (Return 0 ?s1)) = Some (Return (num_nodes l) s2)"
  proof (cases "l = Lf")
    case True
    then show ?thesis by (simp add: s2_def)
  next
    case False
    have "print_avl (ptr l) (Some a) (log_msg INFO ''LEFT.'' [] ?s1) =
       Some (Return (num_nodes l) ((log_msg INFO ''LEFT.'' [] ?s1)\<lparr>logs := logs (log_msg INFO ''LEFT.'' [] ?s1) @ print_log d l\<rparr>))"
      by (rule Nd.IH(1)) (use tl False gd in \<open>simp_all\<close>)
    with False show ?thesis by (simp add: s2_def)
  qed
  have n2: "nodes s2 = nodes s" by (simp add: s2_def log_msg_def)
  define s3 where "s3 = (if r = Lf then s2 else
     (log_msg INFO ''RIGHT.'' [] s2)\<lparr>logs := logs (log_msg INFO ''RIGHT.'' [] s2) @ print_log d r\<rparr>)"
  have right_part: "(if ptr r \<noteq> None then print_avl (ptr r) (Some a) (log_msg INFO ''RIGHT.'' [] s2)
          else Some (Return 0 s2)) = Some (Return (num_nodes r) s3)"
  proof (cases "r = Lf")
    case True
    then show ?thesis by (simp add: s3_def)
  next
    case False
    have "print_avl (ptr r) (Some a) (log_msg INFO ''RIGHT.'' [] s2) =
       Some (Return (num_nodes r) ((log_msg INFO ''RIGHT.'' [] s2)\<lparr>logs := logs (log_msg INFO ''RIGHT.'' [] s2) @ print_log d r\<rparr>))"
      by (rule Nd.IH(2)) (use tr False gd n2 in \<open>simp_all\<close>)
    with False show ?thesis by (simp add: s3_def)
  qed
  have "print_avl (Some a) parent s = Some (Return (1 + num_nodes l + num_nodes r) s3)"
    apply (subst print_avl.simps)
    using Nd.prems(3) left_part right_part gd n2
    apply simp
    done
  moreover have "s3 = s\<lparr>logs := logs s @ print_log pd (Nd l a d k r)\<rparr>"
    by (simp add: s3_def s2_def log_msg_def)
  ultimately show ?case by simp
qed

lemma print_avl_no_parent:
  "get_node root s = Return n s \<Longrightarrow> get_node parent s = Crash \<Longrightarrow>
   print_avl root parent s = Some Crash"
  by (subst print_avl.simps) (auto simp: get_data_def get_node_def split: option.splits if_splits)

lemma release_length [simp]: "length (release as h) = length h"
  by (induction as arbitrary: h) auto

lemma release_nth: "a \<notin> set as \<Longrightarrow> release as h ! a = h ! a"
  by (induction as arbitrary: h) auto

lemma release_freed: "a \<in> set as \<Longrightarrow> a < length h \<Longrightarrow> release as h ! a = None"
proof (induction as arbitrary: h)
  case Nil
  then show ?case by simp
next
  case (Cons b as)
  show ?case
  proof (cases "a \<in> set as")
    case True
    with Cons show ?thesis by simp
  next
    case False
    with Cons.prems show ?thesis by (simp add: release_nth)
  qed
qed

lemma release_append: "release (xs @ ys) h = release ys (release xs h)"
  by (induction xs arbitrary: h) auto

lemma set_post_addrs [simp]: "set (post_addrs t) = set (addrs t)"
  by (induction t) auto

lemma tree_at_release:
  "tree_at h t \<Longrightarrow> set (addrs t) \<inter> set as = {} \<Longrightarrow> tree_at (release as h) t"
  by (induction t) (auto simp: release_nth)

lemma delete_avl_tree:
  "tree_at (nodes s) t \<Longrightarrow> distinct (addrs t) \<Longrightarrow> t \<noteq> Lf \<Longrightarrow>
   delete_avl (ptr t) s =
     Some (Return (num_nodes t) (s\<lparr>nodes := release (post_addrs t) (nodes s)\<rparr>))"
proof (induction t arbitrary: s)
  case Lf
  then show ?case by simp
next
  case (Nd l a d k r)
  from Nd.prems have na: "a < length (nodes s)"
    "nodes s ! a = Some \<lparr>data = d, height = k, left = ptr l, right = ptr r\<rparr>"
    and tl: "tree_at (nodes s) l" and tr: "tree_at (nodes s) r"
    and dl: "distinct (addrs l)" and dr: "distinct (addrs r)"
    and al: "a \<notin> set (addrs l)" and ar: "a \<notin> set (addrs r)"
    and lr: "set (addrs l) \<inter> set (addrs r) = {}"
    by auto
  define s1 where "s1 = s\<lparr>nodes := release (post_addrs l) (nodes s)\<rparr>"
  define s2 where "s2 = s1\<lparr>nodes := release (post_addrs r) (nodes s1)\<rparr>"
  have left_part: "(if ptr l \<noteq> None then delete_avl (ptr l) s else Some (Return 0 s))
      = Some (Return (num_nodes l) s1)"
    using Nd.IH(1) [OF tl dl] by (cases "l = Lf") (simp_all add: s1_def)
  have tr1: "tree_at (nodes s1) r"
    unfolding s1_def using tr lr by (simp add: tree_at_release Int_commute)
  have right_part: "(if ptr r \<noteq> None then delete_avl (ptr r) s1 else Some (Return 0 s1))
      = Some (Return (num_nodes r) s2)"
    using Nd.IH(2) [OF tr1 dr] by (cases "r = Lf") (simp_all add: s2_def)
  have a1: "nodes s1 ! a = nodes s ! a" "nodes s2 ! a = nodes s ! a"
    using al ar by (simp_all add: s1_def s2_def release_nth)
  have len: "length (nodes s1) = length (nodes s)" "length (nodes s2) = length (nodes s)"
    by (simp_all add: s1_def s2_def)
  have "delete_avl (Some a) s =
      Some (Return (0 + num_nodes l + num_nodes r + 1) (s2\<lparr>nodes := (nodes s2)[a := None]\<rparr>))"
    apply (subst delete_avl.simps)
    using na left_part right_part a1 len
    apply (simp add: get_left_def get_right_def get_node_def free_node_def)
    done
  moreover have "s2\<lparr>nodes := (nodes s2)[a := None]\<rparr>
      = s\<lparr>nodes := release (post_addrs (Nd l a d k r)) (nodes s)\<rparr>"
    by (simp add: s2_def s1_def release_append)
  ultimately show ?case by simp
qed

lemma delete_avl_NULL:
  "delete_avl None s = Some (Return (- 1) (s\<lparr>logs := logs s @ [Log ERROR ''root invalid.'' []]\<rparr>))"
  by (subst delete_avl.simps) (simp add: log_msg_def)


section \<open>Lemmas\<close>

lemma ch_hgt: "hts_ok t \<Longrightarrow> ch t = int (hgt t)"
  by (cases t) auto

lemma hgt_0 [simp]: "hgt t = 0 \<longleftrightarrow> t = Lf"
  by (cases t) auto

lemma max_int_if: "(if int a \<le> int b then int b else int a) = int (max a b)"
  by (simp add: max_def)

lemma set_h_ok:
  "hts_ok l \<Longrightarrow> hts_ok r \<Longrightarrow> set_h (Nd l a d k r) = Nd l a d (int (max (hgt l) (hgt r))) r"
  by (simp add: ch_hgt max_def)

lemma a_rebalance_keep:
  assumes "hts_ok l" "hts_ok r" "hgt l \<noteq> hgt r + 2" "hgt r \<noteq> hgt l + 2"
  shows "a_rebalance v (Nd l a d k r) = Some (False, Nd l a d (int (max (hgt l) (hgt r))) r)"
proof -
  have "ch l - ch r \<noteq> - 2" "ch l - ch r \<noteq> 2"
    using assms by (auto simp: ch_hgt)
  then show ?thesis
    using assms by (simp add: ch_hgt max_def)
qed

lemma a_rebalance_RR:
  assumes "hts_ok l" "hts_ok rl" "hts_ok rr" "hgt rl = hgt l" "hgt rr = Suc (hgt l)"
    "m = int (Suc (hgt l))" "e \<le> v"
  shows "a_rebalance v (Nd l a d k (Nd rl b e m rr)) =
    Some (True, Nd (Nd l a d (int (hgt l)) rl) b e (int (Suc (hgt l))) rr)"
  using assms by (simp add: ch_hgt)

lemma a_rebalance_RL:
  assumes "hts_ok l" "hts_ok rll" "hts_ok rlr" "hts_ok rr" "hgt rr = hgt l"
    "max (hgt rll) (hgt rlr) = hgt l"
    "m = int (Suc (hgt l))" "n = int (hgt l)" "\<not> e \<le> v"
  shows "a_rebalance v (Nd l a d k (Nd (Nd rll c g n rlr) b e m rr)) =
    Some (True, Nd (Nd l a d (int (hgt l)) rll) c g (int (Suc (hgt l)))
                   (Nd rlr b e (int (hgt l)) rr))"
proof -
  have "hgt rll \<le> hgt l" "hgt rlr \<le> hgt l"
    using assms(6) by linarith+
  then show ?thesis
    using assms by (simp add: ch_hgt max_def)
qed

lemma a_rebalance_LL:
  assumes "hts_ok r" "hts_ok ll" "hts_ok lr" "hgt lr = hgt r" "hgt ll = Suc (hgt r)"
    "m = int (Suc (hgt r))" "v < e"
  shows "a_rebalance v (Nd (Nd ll b e m lr) a d k r) =
    Some (True, Nd ll b e (int (Suc (hgt r))) (Nd lr a d (int (hgt r)) r))"
  using assms by (simp add: ch_hgt)

lemma a_rebalance_LR:
  assumes "hts_ok r" "hts_ok lrl" "hts_ok lrr" "hts_ok ll" "hgt ll = hgt r"
    "max (hgt lrl) (hgt lrr) = hgt r"
    "m = int (Suc (hgt r))" "n = int (hgt r)" "\<not> v < e"
  shows "a_rebalance v (Nd (Nd ll b e m (Nd lrl c g n lrr)) a d k r) =
    Some (True, Nd (Nd ll b e (int (hgt r)) lrl) c g (int (Suc (hgt r)))
                   (Nd lrr a d (int (hgt r)) r))"
proof -
  have "hgt lrl \<le> hgt r" "hgt lrr \<le> hgt r"
    using assms(6) by linarith+
  then show ?thesis
    using assms by (simp add: ch_hgt max_def)
qed

declare a_rebalance.simps [simp del]

lemma a_rebalance_right:
  assumes "avl (Nd sib a d k c0)" "hts_ok (Nd sib a d k c0)" "avl c" "hts_ok c"
    "grown v c c0" "\<not> v < d"
  shows "\<exists>rot t'. a_rebalance v (Nd sib a d k c) = Some (rot, t') \<and> avl t' \<and> hts_ok t'
     \<and> (if rot then hgt t' = hgt (Nd sib a d k c0) else grown v t' (Nd sib a d k c0))"
proof -
  from assms have sib: "avl sib" "hts_ok sib"
    and b0: "hgt sib \<le> hgt c0 + 1" "hgt c0 \<le> hgt sib + 1"
    by auto
  from assms(5) have g: "hgt c = hgt c0 \<or> (hgt c = Suc (hgt c0) \<and> lean v c)"
    by (simp add: grown_def)
  show ?thesis
  proof (cases "hgt c = hgt sib + 2")
    case False
    with b0 g have nb: "hgt sib \<noteq> hgt c + 2" "hgt c \<noteq> hgt sib + 2"
      by auto
    let ?t = "Nd sib a d (int (max (hgt sib) (hgt c))) c"
    have r: "a_rebalance v (Nd sib a d k c) = Some (False, ?t)"
      using sib assms(4) nb by (simp add: a_rebalance_keep)
    have "hgt c \<le> hgt sib + 1" "hgt sib \<le> hgt c + 1"
      using b0 g nb by auto
    then have a: "avl ?t" "hts_ok ?t"
      using sib assms(3,4) by auto
    have "grown v ?t (Nd sib a d k c0)"
      using g assms(6) by (auto simp: grown_def max_def)
    with r a show ?thesis
      by (intro exI [of _ False] exI [of _ ?t]) (simp only: if_False simp_thms)
  next
    case True
    with b0 g have h0: "hgt c0 = Suc (hgt sib)" and l: "lean v c"
      by auto
    from True obtain cl ca cd ck cr where c: "c = Nd cl ca cd ck cr"
      by (cases c) auto
    from assms(3,4) c have sub: "avl cl" "avl cr" "hts_ok cl" "hts_ok cr"
      and ck: "ck = int (max (hgt cl) (hgt cr))"
      and bc: "hgt cl \<le> hgt cr + 1" "hgt cr \<le> hgt cl + 1"
      by auto
    show ?thesis
    proof (cases "v < cd")
      case False
      with l c bc True have hh: "hgt cl = hgt sib" "hgt cr = Suc (hgt sib)"
        by (auto simp: max_def split: if_splits)
      let ?t = "Nd (Nd sib a d (int (hgt sib)) cl) ca cd (int (Suc (hgt sib))) cr"
      have r: "a_rebalance v (Nd sib a d k c) = Some (True, ?t)"
        unfolding c using sib sub hh ck False by (intro a_rebalance_RR) auto
      have p: "avl ?t" "hts_ok ?t" "hgt ?t = hgt (Nd sib a d k c0)"
        using sib sub hh h0 by auto
      from r p show ?thesis
        by (intro exI [of _ True] exI [of _ ?t]) (simp only: if_True simp_thms)
    next
      case v: True
      with l c bc True have hh: "hgt cl = Suc (hgt sib)" "hgt cr = hgt sib"
        by (auto simp: max_def split: if_splits)
      then obtain cll cla cld clk clr where cl: "cl = Nd cll cla cld clk clr"
        by (cases cl) auto
      from sub cl have sub2: "avl cll" "avl clr" "hts_ok cll" "hts_ok clr"
        and clk: "clk = int (max (hgt cll) (hgt clr))"
        and bl: "hgt cll \<le> hgt clr + 1" "hgt clr \<le> hgt cll + 1"
        by auto
      from hh cl have mx: "max (hgt cll) (hgt clr) = hgt sib"
        by simp
      let ?t = "Nd (Nd sib a d (int (hgt sib)) cll) cla cld (int (Suc (hgt sib)))
                  (Nd clr ca cd (int (hgt sib)) cr)"
      have r: "a_rebalance v (Nd sib a d k c) = Some (True, ?t)"
        unfolding c cl using sib sub sub2 hh mx ck clk v
        by (intro a_rebalance_RL) (auto simp: cl)
      from mx bl have le: "hgt cll \<le> hgt sib" "hgt clr \<le> hgt sib"
        "hgt sib \<le> Suc (hgt cll)" "hgt sib \<le> Suc (hgt clr)"
        by linarith+
      have p: "avl ?t" "hts_ok ?t" "hgt ?t = hgt (Nd sib a d k c0)"
        using sib sub sub2 hh h0 le by (auto simp: max_def)
      from r p show ?thesis
        by (intro exI [of _ True] exI [of _ ?t]) (simp only: if_True simp_thms)
    qed
  qed
qed

lemma a_rebalance_left:
  assumes "avl (Nd c0 a d k sib)" "hts_ok (Nd c0 a d k sib)" "avl c" "hts_ok c"
    "grown v c c0" "v < d"
  shows "\<exists>rot t'. a_rebalance v (Nd c a d k sib) = Some (rot, t') \<and> avl t' \<and> hts_ok t'
     \<and> (if rot then hgt t' = hgt (Nd c0 a d k sib) else grown v t' (Nd c0 a d k sib))"
proof -
  from assms have sib: "avl sib" "hts_ok sib"
    and b0: "hgt sib \<le> hgt c0 + 1" "hgt c0 \<le> hgt sib + 1"
    by auto
  from assms(5) have g: "hgt c = hgt c0 \<or> (hgt c = Suc (hgt c0) \<and> lean v c)"
    by (simp add: grown_def)
  show ?thesis
  proof (cases "hgt c = hgt sib + 2")
    case False
    with b0 g have nb: "hgt sib \<noteq> hgt c + 2" "hgt c \<noteq> hgt sib + 2"
      by auto
    let ?t = "Nd c a d (int (max (hgt c) (hgt sib))) sib"
    have r: "a_rebalance v (Nd c a d k sib) = Some (False, ?t)"
      using sib assms(4) nb by (simp add: a_rebalance_keep)
    have "hgt c \<le> hgt sib + 1" "hgt sib \<le> hgt c + 1"
      using b0 g nb by auto
    then have a: "avl ?t" "hts_ok ?t"
      using sib assms(3,4) by auto
    have "grown v ?t (Nd c0 a d k sib)"
      using g assms(6) by (auto simp: grown_def max_def)
    with r a show ?thesis
      by (intro exI [of _ False] exI [of _ ?t]) (simp only: if_False simp_thms)
  next
    case True
    with b0 g have h0: "hgt c0 = Suc (hgt sib)" and l: "lean v c"
      by auto
    from True obtain cl ca cd ck cr where c: "c = Nd cl ca cd ck cr"
      by (cases c) auto
    from assms(3,4) c have sub: "avl cl" "avl cr" "hts_ok cl" "hts_ok cr"
      and ck: "ck = int (max (hgt cl) (hgt cr))"
      and bc: "hgt cl \<le> hgt cr + 1" "hgt cr \<le> hgt cl + 1"
      by auto
    show ?thesis
    proof (cases "v < cd")
      case v: True
      with l c bc True have hh: "hgt cr = hgt sib" "hgt cl = Suc (hgt sib)"
        by (auto simp: max_def split: if_splits)
      let ?t = "Nd cl ca cd (int (Suc (hgt sib))) (Nd cr a d (int (hgt sib)) sib)"
      have r: "a_rebalance v (Nd c a d k sib) = Some (True, ?t)"
        unfolding c using sib sub hh ck v by (intro a_rebalance_LL) auto
      have p: "avl ?t" "hts_ok ?t" "hgt ?t = hgt (Nd c0 a d k sib)"
        using sib sub hh h0 by auto
      from r p show ?thesis
        by (intro exI [of _ True] exI [of _ ?t]) (simp only: if_True simp_thms)
    next
      case False
      with l c bc True have hh: "hgt cr = Suc (hgt sib)" "hgt cl = hgt sib"
        by (auto simp: max_def split: if_splits)
      then obtain crl cra crd crk crr where cr: "cr = Nd crl cra crd crk crr"
        by (cases cr) auto
      from sub cr have sub2: "avl crl" "avl crr" "hts_ok crl" "hts_ok crr"
        and crk: "crk = int (max (hgt crl) (hgt crr))"
        and bl: "hgt crl \<le> hgt crr + 1" "hgt crr \<le> hgt crl + 1"
        by auto
      from hh cr have mx: "max (hgt crl) (hgt crr) = hgt sib"
        by simp
      let ?t = "Nd (Nd cl ca cd (int (hgt sib)) crl) cra crd (int (Suc (hgt sib)))
                  (Nd crr a d (int (hgt sib)) sib)"
      have r: "a_rebalance v (Nd c a d k sib) = Some (True, ?t)"
        unfolding c cr using sib sub sub2 hh mx ck crk False
        by (intro a_rebalance_LR) (auto simp: cr)
      from mx bl have le: "hgt crl \<le> hgt sib" "hgt crr \<le> hgt sib"
        "hgt sib \<le> Suc (hgt crl)" "hgt sib \<le> Suc (hgt crr)"
        by linarith+
      have p: "avl ?t" "hts_ok ?t" "hgt ?t = hgt (Nd c0 a d k sib)"
        using sib sub sub2 hh h0 le by (auto simp: max_def)
      from r p show ?thesis
        by (intro exI [of _ True] exI [of _ ?t]) (simp only: if_True simp_thms)
    qed
  qed
qed

lemma a_rebalance_step:
  assumes "avl (plug1 f c0)" "hts_ok (plug1 f c0)" "avl c" "hts_ok c" "grown v c c0" "routed v f"
  shows "\<exists>rot t'. a_rebalance v (plug1 f c) = Some (rot, t') \<and> avl t' \<and> hts_ok t'
     \<and> (if rot then hgt t' = hgt (plug1 f c0) else grown v t' (plug1 f c0))"
proof (cases f)
  case (Fr dir a d k sib)
  show ?thesis
  proof (cases dir)
    case LEFT
    with Fr assms have "avl (Nd c0 a d k sib)" "hts_ok (Nd c0 a d k sib)" "v < d"
      by simp_all
    from a_rebalance_left [OF this(1,2) assms(3,4,5) this(3)] show ?thesis
      unfolding Fr LEFT plug1.simps .
  next
    case RIGHT
    with Fr assms have "avl (Nd sib a d k c0)" "hts_ok (Nd sib a d k c0)" "\<not> v < d"
      by simp_all
    from a_rebalance_right [OF this(1,2) assms(3,4,5) this(3)] show ?thesis
      unfolding Fr RIGHT plug1.simps .
  qed
qed

lemma frame_cases [case_names LEFT RIGHT]:
  obtains a d k sib where "f = Fr LEFT a d k sib" | a d k sib where "f = Fr RIGHT a d k sib"
proof (cases f)
  case (Fr dir a d k sib)
  then show ?thesis using that by (cases dir) auto
qed

lemma plug1_avl: "avl (plug1 f t) \<Longrightarrow> avl t"
  by (cases f rule: frame_cases) auto

lemma plug1_hts_ok: "hts_ok (plug1 f t) \<Longrightarrow> hts_ok t"
  by (cases f rule: frame_cases) auto

lemma plug_avl: "avl (plug fs t) \<Longrightarrow> avl t"
  by (induction fs arbitrary: t) (auto dest: plug1_avl)

lemma plug_hts_ok: "hts_ok (plug fs t) \<Longrightarrow> hts_ok t"
  by (induction fs arbitrary: t) (auto dest: plug1_hts_ok)

lemma plug1_same_hgt:
  assumes "hgt t' = hgt t" "avl t'" "hts_ok t'" "avl (plug1 f t)" "hts_ok (plug1 f t)"
  shows "avl (plug1 f t')" "hts_ok (plug1 f t')" "hgt (plug1 f t') = hgt (plug1 f t)"
  using assms by (cases f rule: frame_cases; simp)+

lemma a_unwind_avl:
  assumes "avl (plug fs c0)" "hts_ok (plug fs c0)" "avl c" "hts_ok c" "grown v c c0"
    "\<forall>f \<in> set fs. routed v f"
  shows "\<exists>T. a_unwind v fs c = Some T \<and> avl T \<and> hts_ok T"
  using assms
proof (induction v fs c arbitrary: c0 rule: a_unwind.induct)
  case (1 v c)
  then show ?case by simp
next
  case (2 v f fs c)
  from "2.prems" have w0: "avl (plug fs (plug1 f c0))" "hts_ok (plug fs (plug1 f c0))"
    and rt: "routed v f" "\<forall>f \<in> set fs. routed v f"
    by simp_all
  from w0 have t0: "avl (plug1 f c0)" "hts_ok (plug1 f c0)"
    by (auto dest: plug_avl plug_hts_ok)
  from a_rebalance_step [OF t0 "2.prems"(3,4,5) rt(1)] obtain rot t' where
    r: "a_rebalance v (plug1 f c) = Some (rot, t')" and t': "avl t'" "hts_ok t'"
    and h: "if rot then hgt t' = hgt (plug1 f c0) else grown v t' (plug1 f c0)"
    by blast
  show ?case
  proof (cases rot)
    case False
    with h have g: "grown v t' (plug1 f c0)" by simp
    from r False have r': "a_rebalance v (plug1 f c) = Some (False, t')" by simp
    from "2.IH"(2) [OF r' refl refl w0 t' g rt(2)] r'
    show ?thesis by simp
  next
    case True
    with h have e: "hgt t' = hgt (plug1 f c0)" by simp
    show ?thesis
    proof (cases fs)
      case Nil
      with r True t' show ?thesis by simp
    next
      case (Cons f' fs')
      from w0 Cons have w1: "avl (plug fs' (plug1 f' (plug1 f c0)))"
        "hts_ok (plug fs' (plug1 f' (plug1 f c0)))"
        by simp_all
      then have t1: "avl (plug1 f' (plug1 f c0))" "hts_ok (plug1 f' (plug1 f c0))"
        by (auto dest: plug_avl plug_hts_ok)
      note p = plug1_same_hgt [OF e t' t1]
      from p(3) have g: "grown v (plug1 f' t') (plug1 f' (plug1 f c0))"
        by (simp add: grown_def)
      from rt(2) Cons have "\<forall>f \<in> set fs'. routed v f" by simp
      then have rt': "\<forall>f \<in> set fs'. routed v f" .
      from r True have r': "a_rebalance v (plug1 f c) = Some (True, t')" by simp
      from "2.IH"(1) [OF r' refl refl Cons w1 p(1,2) g rt'] r' Cons
      show ?thesis by simp
    qed
  qed
qed

lemma a_while_root_avl:
  assumes "avl (plug fs c)" "hts_ok (plug fs c)" "c \<noteq> Lf" "\<forall>f \<in> set fs. routed v f"
  shows "\<exists>T. a_while_root v n fs c = Some T \<and> avl T \<and> hts_ok T"
  using assms
proof (induction c arbitrary: fs)
  case Lf
  then show ?case by simp
next
  case (Nd l a d k r)
  from Nd.prems have c: "avl (Nd l a d k r)" "hts_ok (Nd l a d k r)"
    by (auto dest: plug_avl plug_hts_ok)
  show ?case
  proof (cases "v < d")
    case v: True
    show ?thesis
    proof (cases "l = Lf")
      case True
      let ?c = "Nd (Nd Lf n v 0 Lf) a d (int (max 1 (hgt r))) r"
      have s: "set_h (Nd (Nd Lf n v 0 Lf) a d k r) = ?c"
        using c by (subst set_h_ok) simp_all
      have "avl ?c" "hts_ok ?c" "grown v ?c (Nd l a d k r)"
        using c True v by (auto simp: grown_def max_def Suc_le_eq le_Suc_eq)
      from a_unwind_avl [OF Nd.prems(1,2) this Nd.prems(4)] True v s
      show ?thesis by simp
    next
      case False
      have "\<forall>f \<in> set (Fr LEFT a d k r # fs). routed v f"
        using Nd.prems(4) v by simp
      from Nd.IH(1) [of "Fr LEFT a d k r # fs", OF _ _ False this] Nd.prems(1,2) False v
      show ?thesis by simp
    qed
  next
    case v: False
    show ?thesis
    proof (cases "r = Lf")
      case True
      let ?c = "Nd l a d (int (max (hgt l) 1)) (Nd Lf n v 0 Lf)"
      have s: "set_h (Nd l a d k (Nd Lf n v 0 Lf)) = ?c"
        using c by (subst set_h_ok) simp_all
      have "avl ?c" "hts_ok ?c" "grown v ?c (Nd l a d k r)"
        using c True v by (auto simp: grown_def max_def Suc_le_eq le_Suc_eq)
      from a_unwind_avl [OF Nd.prems(1,2) this Nd.prems(4)] True v s
      show ?thesis by simp
    next
      case False
      have "\<forall>f \<in> set (Fr RIGHT a d k l # fs). routed v f"
        using Nd.prems(4) v by simp
      from Nd.IH(2) [of "Fr RIGHT a d k l # fs", OF _ _ False this] Nd.prems(1,2) False v
      show ?thesis by simp
    qed
  qed
qed

lemma pairs_set_h [simp]: "pairs (set_h t) = pairs t"
  by (cases t) simp_all

lemma pairs_fix [simp]: "pairs (fix_left t) = pairs t" "pairs (fix_right t) = pairs t"
  by (cases t; simp)+

lemma pairs_RotateRight: "a_RotateRight t = Some t' \<Longrightarrow> pairs t' = pairs t"
  by (induction t rule: a_RotateRight.induct) auto

lemma pairs_RotateLeft: "a_RotateLeft t = Some t' \<Longrightarrow> pairs t' = pairs t"
  by (induction t rule: a_RotateLeft.induct) auto

lemma pairs_LeftRight: "a_LeftRight t = Some t' \<Longrightarrow> pairs t' = pairs t"
  by (cases t) (auto split: option.splits dest!: pairs_RotateLeft pairs_RotateRight)

lemma pairs_RightLeft: "a_RightLeft t = Some t' \<Longrightarrow> pairs t' = pairs t"
  by (cases t) (auto split: option.splits dest!: pairs_RotateLeft pairs_RotateRight)

lemma pairs_rebalance:
  assumes r: "a_rebalance v t = Some (rot, t')"
  shows "pairs t' = pairs t"
proof (cases t)
  case Lf
  with r show ?thesis by (simp add: a_rebalance.simps)
next
  case t: (Nd l a d k r)
  consider (R) "ch l - ch r = - 2" | (L) "ch l - ch r \<noteq> - 2" "ch l - ch r = 2"
    | (N) "ch l - ch r \<noteq> - 2" "ch l - ch r \<noteq> 2"
    by blast
  then show ?thesis
  proof cases
    case R
    with r t obtain z where
      "(if r = Lf then None else if v \<ge> (case r of Nd rl b e m rr \<Rightarrow> e) then a_RotateLeft t else a_RightLeft t) = Some z"
      "t' = fix_left z"
      by (cases r) (auto simp: a_rebalance.simps
          simp del: a_RotateLeft.simps a_RotateRight.simps a_LeftRight.simps a_RightLeft.simps
          split: if_splits)
    then show ?thesis
      by (auto split: if_splits dest: pairs_RotateLeft pairs_RightLeft)
  next
    case L
    with r t obtain z where
      "(if l = Lf then None else if v < (case l of Nd ll b e m lr \<Rightarrow> e) then a_RotateRight t else a_LeftRight t) = Some z"
      "t' = fix_right z"
      by (cases l) (auto simp: a_rebalance.simps
          simp del: a_RotateLeft.simps a_RotateRight.simps a_LeftRight.simps a_RightLeft.simps
          split: if_splits)
    then show ?thesis
      by (auto split: if_splits dest: pairs_RotateRight pairs_LeftRight)
  next
    case N
    with r t show ?thesis
      by (auto simp: a_rebalance.simps)
  qed
qed

lemma pairs_plug1_cong: "pairs c' = pairs c \<Longrightarrow> pairs (plug1 f c') = pairs (plug1 f c)"
  by (cases f rule: frame_cases) simp_all

lemma pairs_plug_cong: "pairs c' = pairs c \<Longrightarrow> pairs (plug fs c') = pairs (plug fs c)"
proof (induction fs arbitrary: c c')
  case Nil
  then show ?case by simp
next
  case (Cons f fs)
  from Cons.IH [OF pairs_plug1_cong [OF Cons.prems]] show ?case by simp
qed

lemma pairs_unwind: "a_unwind v fs c = Some T \<Longrightarrow> pairs T = pairs (plug fs c)"
proof (induction v fs c rule: a_unwind.induct)
  case (1 v c)
  then show ?case by simp
next
  case (2 v f fs c)
  from "2.prems" obtain rot t' where r: "a_rebalance v (plug1 f c) = Some (rot, t')"
    by (auto split: option.splits)
  note e = pairs_rebalance [OF r]
  show ?case
  proof (cases rot)
    case False
    with r have r': "a_rebalance v (plug1 f c) = Some (False, t')" by simp
    with "2.prems" have "a_unwind v fs t' = Some T" by simp
    from "2.IH"(2) [OF r' refl refl this] pairs_plug_cong [OF e, of fs] show ?thesis
      by simp
  next
    case True
    with r have r': "a_rebalance v (plug1 f c) = Some (True, t')" by simp
    show ?thesis
    proof (cases fs)
      case Nil
      with r' "2.prems" e show ?thesis by simp
    next
      case (Cons f' fs')
      with r' "2.prems" have "a_unwind v fs' (plug1 f' t') = Some T" by simp
      from "2.IH"(1) [OF r' refl refl Cons this]
        pairs_plug_cong [OF pairs_plug1_cong [OF e], of fs' f'] Cons show ?thesis
        by simp
    qed
  qed
qed

lemma pairs_while_root:
  "a_while_root v n fs c = Some T \<Longrightarrow> pairs T = pairs (plug fs (bst_ins v n c))"
proof (induction c arbitrary: fs)
  case Lf
  then show ?case by simp
next
  case (Nd l a d k r)
  show ?case
  proof (cases "v < d")
    case v: True
    show ?thesis
    proof (cases "l = Lf")
      case True
      with v Nd.prems have "a_unwind v fs (set_h (Nd (Nd Lf n v 0 Lf) a d k r)) = Some T"
        by simp
      from pairs_unwind [OF this]
      have "pairs T = pairs (plug fs (Nd (Nd Lf n v 0 Lf) a d k r))"
        by (simp only: pairs_plug_cong [OF pairs_set_h])
      with True v show ?thesis by simp
    next
      case False
      with v Nd.prems have "a_while_root v n (Fr LEFT a d k r # fs) l = Some T"
        by simp
      from Nd.IH(1) [OF this] v show ?thesis by simp
    qed
  next
    case v: False
    show ?thesis
    proof (cases "r = Lf")
      case True
      with v Nd.prems have "a_unwind v fs (set_h (Nd l a d k (Nd Lf n v 0 Lf))) = Some T"
        by simp
      from pairs_unwind [OF this]
      have "pairs T = pairs (plug fs (Nd l a d k (Nd Lf n v 0 Lf)))"
        by (simp only: pairs_plug_cong [OF pairs_set_h])
      with True v show ?thesis by simp
    next
      case False
      with v Nd.prems have "a_while_root v n (Fr RIGHT a d k l # fs) r = Some T"
        by simp
      from Nd.IH(2) [OF this] v show ?thesis by simp
    qed
  qed
qed

lemma set_pairs_bst_ins: "set (pairs (bst_ins v n t)) = insert (v, n) (set (pairs t))"
  by (induction t) auto

lemma map_snd_pairs: "map snd (pairs t) = addrs t"
  by (induction t) auto

lemma map_fst_pairs: "map fst (pairs t) = inorder t"
  by (induction t) auto

lemma sorted_ins_left:
  fixes p q :: "'a :: linorder"
  assumes "sorted (xs @ p # ys)" "sorted xs'" "set xs' = insert q (set xs)" "q \<le> p"
  shows "sorted (xs' @ p # ys)"
proof -
  from assms(1) have 1: "sorted (p # ys)" "\<forall>x\<in>set xs. \<forall>y\<in>set (p # ys). x \<le> y"
    by (auto simp: sorted_append)
  have "\<forall>y\<in>set (p # ys). q \<le> y"
    using assms(4) 1(1) order_trans by fastforce
  with 1 assms(2,3) show ?thesis
    by (simp add: sorted_append)
qed

lemma sorted_ins_right:
  fixes p q :: "'a :: linorder"
  assumes "sorted (xs @ p # ys)" "sorted ys'" "set ys' = insert q (set ys)" "p \<le> q"
  shows "sorted (xs @ p # ys')"
proof -
  from assms(1) have 1: "sorted xs" "\<forall>y\<in>set ys. p \<le> y" "\<forall>x\<in>set xs. x \<le> p"
    "\<forall>x\<in>set xs. \<forall>y\<in>set ys. x \<le> y"
    by (auto simp: sorted_append)
  have "\<forall>x\<in>set xs. x \<le> q"
    using assms(4) 1(3) order_trans by fastforce
  with 1 assms(2,3,4) show ?thesis
    by (simp add: sorted_append)
qed

lemma sorted_pairs_bst_ins:
  "sorted (pairs t) \<Longrightarrow> \<forall>a \<in> set (addrs t). a < n \<Longrightarrow> sorted (pairs (bst_ins v n t))"
proof (induction t)
  case Lf
  then show ?case by simp
next
  case (Nd l a d k r)
  from Nd.prems(1) have s0: "sorted (pairs l @ (d, a) # pairs r)"
    by simp
  then have sl: "sorted (pairs l)" and sr: "sorted (pairs r)"
    by (simp_all add: sorted_append)
  from Nd.prems(2) have an: "a < n" "\<forall>a \<in> set (addrs l). a < n" "\<forall>a \<in> set (addrs r). a < n"
    by simp_all
  show ?case
  proof (cases "v < d")
    case True
    then have le: "(v, n) \<le> (d, a)" by simp
    have "sorted (pairs (bst_ins v n l) @ (d, a) # pairs r)"
      by (rule sorted_ins_left [OF s0 Nd.IH(1) [OF sl an(2)] set_pairs_bst_ins le])
    with True show ?thesis by simp
  next
    case False
    with an have le: "(d, a) \<le> (v, n)" by auto
    have "sorted (pairs l @ (d, a) # pairs (bst_ins v n r))"
      by (rule sorted_ins_right [OF s0 Nd.IH(2) [OF sr an(3)] set_pairs_bst_ins le])
    with False show ?thesis by simp
  qed
qed

lemma tree_at_cong:
  "tree_at h t \<Longrightarrow> \<forall>x \<in> set (addrs t). h' ! x = h ! x \<Longrightarrow> length h \<le> length h'
   \<Longrightarrow> tree_at h' t"
  by (induction t) auto

lemma tree_at_update:
  "tree_at h t \<Longrightarrow> a \<notin> set (addrs t) \<Longrightarrow> tree_at (h[a := x]) t"
  by (induction t) auto

lemma tree_step_trans:
  assumes "tree_step s t s1 t1" "tree_step s1 t1 s2 t2"
  shows "tree_step s t s2 t2"
  unfolding tree_step_def
proof (intro conjI)
  from assms show "tree_at (nodes s2) t2" "distinct (addrs t2)"
    "length (nodes s) \<le> length (nodes s2)" "cells s2 = cells s" "ints s2 = ints s"
    "alloc_ok s2 = alloc_ok s"
    by (auto simp: tree_step_def)
  show "\<forall>x \<in> set (addrs t2). x \<in> set (addrs t) \<or> length (nodes s) \<le> x"
  proof
    fix x assume "x \<in> set (addrs t2)"
    with assms(2) have "x \<in> set (addrs t1) \<or> length (nodes s1) \<le> x"
      by (simp add: tree_step_def)
    with assms(1) show "x \<in> set (addrs t) \<or> length (nodes s) \<le> x"
      unfolding tree_step_def by (metis le_trans)
  qed
  show "\<forall>x < length (nodes s). x \<notin> set (addrs t) \<longrightarrow> nodes s2 ! x = nodes s ! x"
  proof (intro allI impI)
    fix x assume x: "x < length (nodes s)" "x \<notin> set (addrs t)"
    with assms(1) have 1: "nodes s1 ! x = nodes s ! x" "x < length (nodes s1)" "x \<notin> set (addrs t1)"
      unfolding tree_step_def by (auto simp: not_le [symmetric])
    with assms(2) have "nodes s2 ! x = nodes s1 ! x"
      unfolding tree_step_def by blast
    with 1 show "nodes s2 ! x = nodes s ! x" by simp
  qed
qed

lemma tree_step_plug1:
  assumes "tree_at (nodes s) (plug1 f c)" "distinct (addrs (plug1 f c))"
    "tree_step s c s' c'" "ptr c' = ptr c"
  shows "tree_step s (plug1 f c) s' (plug1 f c')"
proof -
  obtain dir a d k sib where f: "f = Fr dir a d k sib" by (cases f)
  from assms(3) have c': "tree_at (nodes s') c'" "distinct (addrs c')"
    and len: "length (nodes s) \<le> length (nodes s')"
    and new: "\<forall>x \<in> set (addrs c'). x \<in> set (addrs c) \<or> length (nodes s) \<le> x"
    and same: "\<forall>x < length (nodes s). x \<notin> set (addrs c) \<longrightarrow> nodes s' ! x = nodes s ! x"
    and env: "cells s' = cells s" "ints s' = ints s" "alloc_ok s' = alloc_ok s"
    by (simp_all add: tree_step_def)
  from assms(1,2) f have a: "a < length (nodes s)" "a \<notin> set (addrs c)" "a \<notin> set (addrs sib)"
    and sib: "tree_at (nodes s) sib" "distinct (addrs sib)"
    and dj: "set (addrs c) \<inter> set (addrs sib) = {}"
    and na: "nodes s ! a = Some \<lparr>data = d, height = k,
        left = (if dir = LEFT then ptr c else ptr sib),
        right = (if dir = LEFT then ptr sib else ptr c)\<rparr>"
    by (cases dir; auto)+
  have sv: "\<forall>x \<in> set (addrs sib). x < length (nodes s)"
    using sib(1) by (blast intro: tree_at_addr_valid)
  then have "\<forall>x \<in> set (addrs sib). nodes s' ! x = nodes s ! x"
    using same dj by blast
  with sib(1) len have sib': "tree_at (nodes s') sib"
    by (blast intro: tree_at_cong)
  from same a have na': "nodes s' ! a = nodes s ! a" by blast
  have a': "a \<notin> set (addrs c')" using new a by auto
  have dj': "set (addrs c') \<inter> set (addrs sib) = {}"
    using new dj sv by fastforce
  have t: "tree_at (nodes s') (plug1 f c')"
    using f c'(1) sib' na na' a(1) len assms(4) by (cases dir) auto
  have d: "distinct (addrs (plug1 f c'))"
    using f c'(2) sib(2) a' a(3) dj' by (cases dir) auto
  have n: "\<forall>x \<in> set (addrs (plug1 f c')). x \<in> set (addrs (plug1 f c)) \<or> length (nodes s) \<le> x"
    using f new by (cases dir) auto
  have sm: "\<forall>x < length (nodes s). x \<notin> set (addrs (plug1 f c)) \<longrightarrow> nodes s' ! x = nodes s ! x"
    using f same by (cases dir) auto
  from t d len n sm env show ?thesis
    by (simp add: tree_step_def)
qed

lemma ptr_plug1_cong: "ptr (plug1 f c') = ptr (plug1 f c)"
  by (cases f rule: frame_cases) simp_all

lemma plug1_tree_at: "tree_at h (plug1 f c) \<Longrightarrow> tree_at h c"
  by (cases f rule: frame_cases) simp_all

lemma plug1_distinct: "distinct (addrs (plug1 f c)) \<Longrightarrow> distinct (addrs c)"
  by (cases f rule: frame_cases) simp_all

lemma plug_tree_at: "tree_at h (plug fs c) \<Longrightarrow> tree_at h c"
  by (induction fs arbitrary: c) (auto dest: plug1_tree_at)

lemma plug_distinct: "distinct (addrs (plug fs c)) \<Longrightarrow> distinct (addrs c)"
  by (induction fs arbitrary: c) (auto dest: plug1_distinct)

lemma tree_step_plug:
  assumes "tree_at (nodes s) (plug fs c)" "distinct (addrs (plug fs c))"
    "tree_step s c s' c'" "ptr c' = ptr c"
  shows "tree_step s (plug fs c) s' (plug fs c') \<and> ptr (plug fs c') = ptr (plug fs c)"
  using assms
proof (induction fs arbitrary: c c')
  case Nil
  then show ?case by simp
next
  case (Cons f fs)
  from Cons.prems have 1: "tree_at (nodes s) (plug fs (plug1 f c))"
    "distinct (addrs (plug fs (plug1 f c)))"
    by simp_all
  then have 2: "tree_at (nodes s) (plug1 f c)" "distinct (addrs (plug1 f c))"
    by (auto dest: plug_tree_at plug_distinct)
  from Cons.IH [OF 1 tree_step_plug1 [OF 2 Cons.prems(3,4)] ptr_plug1_cong]
  show ?case by simp
qed

lemma node_reads:
  assumes "a < length (nodes s)" "nodes s ! a = Some n"
  shows "get_node (Some a) s = Return n s"
    "get_data (Some a) s = Return (data n) s"
    "get_height (Some a) s = Return (height n) s"
    "get_left (Some a) s = Return (left n) s"
    "get_right (Some a) s = Return (right n) s"
  using assms by (simp_all add: get_node_def get_data_def get_height_def get_left_def get_right_def)

lemma node_writes:
  assumes "a < length (nodes s)" "nodes s ! a = Some n"
  shows "set_data (Some a) v s = Return () (s\<lparr>nodes := (nodes s)[a := Some (n\<lparr>data := v\<rparr>)]\<rparr>)"
    "set_height (Some a) v s = Return () (s\<lparr>nodes := (nodes s)[a := Some (n\<lparr>height := v\<rparr>)]\<rparr>)"
    "set_left (Some a) p s = Return () (s\<lparr>nodes := (nodes s)[a := Some (n\<lparr>left := p\<rparr>)]\<rparr>)"
    "set_right (Some a) p s = Return () (s\<lparr>nodes := (nodes s)[a := Some (n\<lparr>right := p\<rparr>)]\<rparr>)"
  using assms
  by (simp_all add: get_node_def put_node_def set_data_def set_height_def set_left_def set_right_def)

lemma child_height_tree: "tree_at (nodes s) t \<Longrightarrow> child_height (ptr t) s = Return (ch t) s"
  by (cases t) (simp_all add: child_height_def node_reads)

lemma height_c_tree:
  "tree_at (nodes s) (Nd l a d k r) \<Longrightarrow>
   height_c (Some a) s = Return (if ch l \<ge> ch r then ch l else ch r) s"
  by (simp add: height_c_def node_reads child_height_tree)

lemma BalanceFactor_tree:
  "tree_at (nodes s) (Nd l a d k r) \<Longrightarrow> BalanceFactor (Some a) s = Return (ch l - ch r) s"
  by (simp add: BalanceFactor_def node_reads child_height_tree)

text \<open>Rewriting the node at the root of a tree: the subtrees stay, the root record is
  replaced.\<close>

lemma tree_step_root:
  assumes "tree_at (nodes s) (Nd l a d k r)" "distinct (addrs (Nd l a d k r))"
    "tree_at (nodes s) l'" "tree_at (nodes s) r'" "distinct (addrs (Nd l' a d' k' r'))"
    "set (addrs l') \<union> set (addrs r') \<subseteq> set (addrs l) \<union> set (addrs r)"
  shows "tree_step s (Nd l a d k r)
     (s\<lparr>nodes := (nodes s)[a := Some \<lparr>data = d', height = k', left = ptr l', right = ptr r'\<rparr>]\<rparr>)
     (Nd l' a d' k' r')"
  using assms by (auto simp: tree_step_def tree_at_update)

lemma bnd_assoc: "bnd (bnd m f) g = bnd m (\<lambda>x s. bnd (f x s) g)"
  by (cases m) simp_all

lemma refresh_tree:
  assumes "tree_at (nodes s) t" "distinct (addrs t)" "t \<noteq> Lf"
  shows "\<exists>s'. refresh (ptr t) s = Return () s' \<and> tree_step s t s' (set_h t)
     \<and> length (nodes s') = length (nodes s)"
proof -
  from assms(3) obtain l a d k r where t: "t = Nd l a d k r" by (cases t) auto
  let ?k = "if ch l \<ge> ch r then ch l else ch r"
  let ?s = "s\<lparr>nodes := (nodes s)[a := Some \<lparr>data = d, height = ?k, left = ptr l, right = ptr r\<rparr>]\<rparr>"
  have "refresh (Some a) s = Return () ?s"
    using assms(1) unfolding t
    by (simp add: refresh_def height_c_tree node_writes del: tree_at.simps)
       (simp add: node_writes)
  moreover have "tree_step s (Nd l a d k r) ?s (Nd l a d ?k r)"
    using assms(1,2) unfolding t by (intro tree_step_root) auto
  ultimately show ?thesis
    unfolding t by (intro exI [of _ ?s]) simp
qed

lemma addrs_set_h [simp]: "addrs (set_h t) = addrs t"
  by (cases t) simp_all

lemma ptr_set_h [simp]: "ptr (set_h t) = ptr t"
  by (cases t) simp_all

lemma set_h_eq_Lf [simp]: "set_h t = Lf \<longleftrightarrow> t = Lf"
  by (cases t) simp_all

lemma tree_stepD:
  assumes "tree_step s t s' t'"
  shows "tree_at (nodes s') t'" "distinct (addrs t')"
  using assms by (simp_all add: tree_step_def)

lemma RotateRight_tree:
  assumes "tree_at (nodes s) t" "distinct (addrs t)" "a_RotateRight t = Some t'"
  shows "\<exists>s'. RotateRight (ptr t) s = Return (ptr t') s' \<and> tree_step s t s' t'
     \<and> length (nodes s') = length (nodes s)"
proof -
  from assms(3) obtain ll b e m lr a d k r where t: "t = Nd (Nd ll b e m lr) a d k r"
    by (cases t rule: a_RotateRight.cases) auto
  with assms(3) have t': "t' = set_h (Nd ll b e m (set_h (Nd lr a d k r)))"
    by simp
  let ?h = "nodes s"
  let ?X = "Some \<lparr>data = d, height = k, left = ptr lr, right = ptr r\<rparr>"
  let ?Y = "Some \<lparr>data = e, height = m, left = ptr ll, right = Some a\<rparr>"
  let ?s2 = "s\<lparr>nodes := ?h[a := ?X, b := ?Y]\<rparr>"
  let ?c = "Nd lr a d k r"
  let ?t1 = "Nd ll b e m ?c"
  from assms(1,2) t have va: "a < length ?h" "b < length ?h" "a \<noteq> b"
    and na: "?h ! a = Some \<lparr>data = d, height = k, left = Some b, right = ptr r\<rparr>"
    and nb: "?h ! b = Some \<lparr>data = e, height = m, left = ptr ll, right = ptr lr\<rparr>"
    and sub: "tree_at ?h ll" "tree_at ?h lr" "tree_at ?h r"
    and fr: "a \<notin> set (addrs ll)" "a \<notin> set (addrs lr)" "a \<notin> set (addrs r)"
      "b \<notin> set (addrs ll)" "b \<notin> set (addrs lr)" "b \<notin> set (addrs r)"
    and d1: "distinct (addrs ?t1)"
    by auto
  have e: "RotateRight (Some a) s =
      bnd (refresh (Some a) ?s2) (\<lambda>_ s. bnd (refresh (Some b) s) (\<lambda>_ s. Return (Some b) s))"
    using va na nb
    by (simp add: RotateRight_def refresh_def bnd_assoc node_reads node_writes)
  have t1: "tree_at (nodes ?s2) ?t1"
    using va na nb sub fr by (simp add: tree_at_update)
  have st1: "tree_step s t ?s2 ?t1"
    unfolding tree_step_def t using t1 d1 by auto
  from t1 d1 have c: "tree_at (nodes ?s2) ?c" "distinct (addrs ?c)"
    by auto
  from refresh_tree [OF c] obtain s3 where
    r3: "refresh (Some a) ?s2 = Return () s3" and st3: "tree_step ?s2 ?c s3 (set_h ?c)"
    and l3: "length (nodes s3) = length (nodes ?s2)"
    by auto
  have "tree_step ?s2 (plug1 (Fr RIGHT b e m ll) ?c) s3 (plug1 (Fr RIGHT b e m ll) (set_h ?c))"
    by (rule tree_step_plug1) (use t1 d1 st3 in simp_all)
  then have st3': "tree_step ?s2 ?t1 s3 (Nd ll b e m (set_h ?c))"
    by simp
  from refresh_tree [OF tree_stepD [OF st3']] obtain s4 where
    r4: "refresh (Some b) s3 = Return () s4"
    and st4: "tree_step s3 (Nd ll b e m (set_h ?c)) s4 (set_h (Nd ll b e m (set_h ?c)))"
    and l4: "length (nodes s4) = length (nodes s3)"
    by auto
  have "tree_step s t s4 (set_h (Nd ll b e m (set_h ?c)))"
    using st1 st3' st4 by (blast intro: tree_step_trans)
  moreover have "length (nodes s4) = length (nodes s)"
    using l3 l4 by simp
  ultimately show ?thesis
    using e r3 r4 unfolding t t' by (intro exI [of _ s4]) (simp del: set_h.simps)
qed

lemma RotateLeft_tree:
  assumes "tree_at (nodes s) t" "distinct (addrs t)" "a_RotateLeft t = Some t'"
  shows "\<exists>s'. RotateLeft (ptr t) s = Return (ptr t') s' \<and> tree_step s t s' t'
     \<and> length (nodes s') = length (nodes s)"
proof -
  from assms(3) obtain l a d k rl b e m rr where t: "t = Nd l a d k (Nd rl b e m rr)"
    by (cases t rule: a_RotateLeft.cases) auto
  with assms(3) have t': "t' = set_h (Nd (set_h (Nd l a d k rl)) b e m rr)"
    by simp
  let ?h = "nodes s"
  let ?X = "Some \<lparr>data = d, height = k, left = ptr l, right = ptr rl\<rparr>"
  let ?Y = "Some \<lparr>data = e, height = m, left = Some a, right = ptr rr\<rparr>"
  let ?s2 = "s\<lparr>nodes := ?h[a := ?X, b := ?Y]\<rparr>"
  let ?c = "Nd l a d k rl"
  let ?t1 = "Nd ?c b e m rr"
  from assms(1,2) t have va: "a < length ?h" "b < length ?h" "a \<noteq> b"
    and na: "?h ! a = Some \<lparr>data = d, height = k, left = ptr l, right = Some b\<rparr>"
    and nb: "?h ! b = Some \<lparr>data = e, height = m, left = ptr rl, right = ptr rr\<rparr>"
    and sub: "tree_at ?h l" "tree_at ?h rl" "tree_at ?h rr"
    and fr: "a \<notin> set (addrs l)" "a \<notin> set (addrs rl)" "a \<notin> set (addrs rr)"
      "b \<notin> set (addrs l)" "b \<notin> set (addrs rl)" "b \<notin> set (addrs rr)"
    and d1: "distinct (addrs ?t1)"
    by auto
  have e: "RotateLeft (Some a) s =
      bnd (refresh (Some a) ?s2) (\<lambda>_ s. bnd (refresh (Some b) s) (\<lambda>_ s. Return (Some b) s))"
    using va na nb
    by (simp add: RotateLeft_def refresh_def bnd_assoc node_reads node_writes)
  have t1: "tree_at (nodes ?s2) ?t1"
    using va na nb sub fr by (simp add: tree_at_update)
  have st1: "tree_step s t ?s2 ?t1"
    unfolding tree_step_def t using t1 d1 by auto
  from t1 d1 have c: "tree_at (nodes ?s2) ?c" "distinct (addrs ?c)"
    by auto
  from refresh_tree [OF c] obtain s3 where
    r3: "refresh (Some a) ?s2 = Return () s3" and st3: "tree_step ?s2 ?c s3 (set_h ?c)"
    and l3: "length (nodes s3) = length (nodes ?s2)"
    by auto
  have "tree_step ?s2 (plug1 (Fr LEFT b e m rr) ?c) s3 (plug1 (Fr LEFT b e m rr) (set_h ?c))"
    by (rule tree_step_plug1) (use t1 d1 st3 in simp_all)
  then have st3': "tree_step ?s2 ?t1 s3 (Nd (set_h ?c) b e m rr)"
    by simp
  from refresh_tree [OF tree_stepD [OF st3']] obtain s4 where
    r4: "refresh (Some b) s3 = Return () s4"
    and st4: "tree_step s3 (Nd (set_h ?c) b e m rr) s4 (set_h (Nd (set_h ?c) b e m rr))"
    and l4: "length (nodes s4) = length (nodes s3)"
    by auto
  have "tree_step s t s4 (set_h (Nd (set_h ?c) b e m rr))"
    using st1 st3' st4 by (blast intro: tree_step_trans)
  moreover have "length (nodes s4) = length (nodes s)"
    using l3 l4 by simp
  ultimately show ?thesis
    using e r3 r4 unfolding t t' by (intro exI [of _ s4]) (simp del: set_h.simps)
qed

lemma set_child_left:
  assumes "tree_at (nodes s) (Nd l a d k r)" "distinct (addrs (Nd l a d k r))"
    "tree_step s l s1 l'" "length (nodes s1) = length (nodes s)"
  shows "\<exists>s2. set_left (Some a) (ptr l') s1 = Return () s2
     \<and> tree_step s (Nd l a d k r) s2 (Nd l' a d k r) \<and> length (nodes s2) = length (nodes s)"
proof -
  from assms(3) have l': "tree_at (nodes s1) l'" "distinct (addrs l')"
    and new: "\<forall>x \<in> set (addrs l'). x \<in> set (addrs l) \<or> length (nodes s) \<le> x"
    and same: "\<forall>x < length (nodes s). x \<notin> set (addrs l) \<longrightarrow> nodes s1 ! x = nodes s ! x"
    and env: "cells s1 = cells s" "ints s1 = ints s" "alloc_ok s1 = alloc_ok s"
    by (simp_all add: tree_step_def)
  from l'(1) assms(4) have v': "\<forall>x \<in> set (addrs l'). x < length (nodes s)"
    by (auto dest: tree_at_addr_valid)
  with new have sub: "set (addrs l') \<subseteq> set (addrs l)"
    by fastforce
  from assms(1,2) have a: "a < length (nodes s)" "a \<notin> set (addrs l)" "a \<notin> set (addrs r)"
    and na: "nodes s ! a = Some \<lparr>data = d, height = k, left = ptr l, right = ptr r\<rparr>"
    and r: "tree_at (nodes s) r" "distinct (addrs r)"
    and dj: "set (addrs l) \<inter> set (addrs r) = {}"
    by auto
  have rv: "\<forall>x \<in> set (addrs r). x < length (nodes s)"
    using r(1) by (blast intro: tree_at_addr_valid)
  from same a have na1: "nodes s1 ! a = nodes s ! a" by blast
  let ?s2 = "s1\<lparr>nodes := (nodes s1)[a := Some \<lparr>data = d, height = k, left = ptr l', right = ptr r\<rparr>]\<rparr>"
  have w: "set_left (Some a) (ptr l') s1 = Return () ?s2"
    using a(1) assms(4) na na1 by (simp add: node_writes)
  have "\<forall>x \<in> set (addrs r). nodes s1 ! x = nodes s ! x"
    using rv same dj by blast
  then have r1: "tree_at (nodes s1) r"
    by (rule tree_at_cong [OF r(1)]) (simp add: assms(4))
  have al': "a \<notin> set (addrs l')" using sub a(2) by blast
  have t2: "tree_at (nodes ?s2) (Nd l' a d k r)"
    using a(1) assms(4) l'(1) r1 al' a(3) by (simp add: tree_at_update)
  have d2: "distinct (addrs (Nd l' a d k r))"
    using l'(2) r(2) al' a(3) sub dj by auto
  have "tree_step s (Nd l a d k r) ?s2 (Nd l' a d k r)"
    unfolding tree_step_def using t2 d2 assms(4) sub same env by auto
  with w assms(4) show ?thesis
    by (intro exI [of _ ?s2]) simp
qed

lemma set_child_right:
  assumes "tree_at (nodes s) (Nd l a d k r)" "distinct (addrs (Nd l a d k r))"
    "tree_step s r s1 r'" "length (nodes s1) = length (nodes s)"
  shows "\<exists>s2. set_right (Some a) (ptr r') s1 = Return () s2
     \<and> tree_step s (Nd l a d k r) s2 (Nd l a d k r') \<and> length (nodes s2) = length (nodes s)"
proof -
  from assms(3) have r': "tree_at (nodes s1) r'" "distinct (addrs r')"
    and new: "\<forall>x \<in> set (addrs r'). x \<in> set (addrs r) \<or> length (nodes s) \<le> x"
    and same: "\<forall>x < length (nodes s). x \<notin> set (addrs r) \<longrightarrow> nodes s1 ! x = nodes s ! x"
    and env: "cells s1 = cells s" "ints s1 = ints s" "alloc_ok s1 = alloc_ok s"
    by (simp_all add: tree_step_def)
  from r'(1) assms(4) have v': "\<forall>x \<in> set (addrs r'). x < length (nodes s)"
    by (auto dest: tree_at_addr_valid)
  with new have sub: "set (addrs r') \<subseteq> set (addrs r)"
    by fastforce
  from assms(1,2) have a: "a < length (nodes s)" "a \<notin> set (addrs l)" "a \<notin> set (addrs r)"
    and na: "nodes s ! a = Some \<lparr>data = d, height = k, left = ptr l, right = ptr r\<rparr>"
    and l: "tree_at (nodes s) l" "distinct (addrs l)"
    and dj: "set (addrs l) \<inter> set (addrs r) = {}"
    by auto
  have lv: "\<forall>x \<in> set (addrs l). x < length (nodes s)"
    using l(1) by (blast intro: tree_at_addr_valid)
  from same a have na1: "nodes s1 ! a = nodes s ! a" by blast
  let ?s2 = "s1\<lparr>nodes := (nodes s1)[a := Some \<lparr>data = d, height = k, left = ptr l, right = ptr r'\<rparr>]\<rparr>"
  have w: "set_right (Some a) (ptr r') s1 = Return () ?s2"
    using a(1) assms(4) na na1 by (simp add: node_writes)
  have "\<forall>x \<in> set (addrs l). nodes s1 ! x = nodes s ! x"
    using lv same dj by blast
  then have l1: "tree_at (nodes s1) l"
    by (rule tree_at_cong [OF l(1)]) (simp add: assms(4))
  have ar': "a \<notin> set (addrs r')" using sub a(3) by blast
  have t2: "tree_at (nodes ?s2) (Nd l a d k r')"
    using a(1) assms(4) r'(1) l1 ar' a(2) by (simp add: tree_at_update)
  have d2: "distinct (addrs (Nd l a d k r'))"
    using r'(2) l(2) ar' a(2) sub dj by auto
  have "tree_step s (Nd l a d k r) ?s2 (Nd l a d k r')"
    unfolding tree_step_def using t2 d2 assms(4) sub same env by auto
  with w assms(4) show ?thesis
    by (intro exI [of _ ?s2]) simp
qed

lemma LeftRight_tree:
  assumes "tree_at (nodes s) t" "distinct (addrs t)" "a_LeftRight t = Some t'"
  shows "\<exists>s'. LeftRight (ptr t) s = Return (ptr t') s' \<and> tree_step s t s' t'
     \<and> length (nodes s') = length (nodes s)"
proof -
  from assms(3) obtain l a d k r l' where t: "t = Nd l a d k r"
    and rl: "a_RotateLeft l = Some l'" and rr: "a_RotateRight (Nd l' a d k r) = Some t'"
    by (cases t) (auto split: option.splits)
  from assms(1,2) t have l: "tree_at (nodes s) l" "distinct (addrs l)"
    and na: "a < length (nodes s)"
      "nodes s ! a = Some \<lparr>data = d, height = k, left = ptr l, right = ptr r\<rparr>"
    by auto
  from RotateLeft_tree [OF l rl] obtain s1 where
    1: "RotateLeft (ptr l) s = Return (ptr l') s1" "tree_step s l s1 l'"
      "length (nodes s1) = length (nodes s)"
    by blast
  from set_child_left [OF assms(1,2) [unfolded t] 1(2,3)] obtain s2 where
    2: "set_left (Some a) (ptr l') s1 = Return () s2"
      "tree_step s (Nd l a d k r) s2 (Nd l' a d k r)" "length (nodes s2) = length (nodes s)"
    by blast
  from RotateRight_tree [OF tree_stepD [OF 2(2)] rr] obtain s3 where
    3: "RotateRight (Some a) s2 = Return (ptr t') s3" "tree_step s2 (Nd l' a d k r) s3 t'"
      "length (nodes s3) = length (nodes s2)"
    by auto
  have "LeftRight (Some a) s = Return (ptr t') s3"
    using na 1(1) 2(1) 3(1) by (simp add: LeftRight_def node_reads)
  moreover have "tree_step s t s3 t'"
    unfolding t using 2(2) 3(2) by (rule tree_step_trans)
  ultimately show ?thesis
    using 2(3) 3(3) unfolding t by (intro exI [of _ s3]) simp
qed

lemma RightLeft_tree:
  assumes "tree_at (nodes s) t" "distinct (addrs t)" "a_RightLeft t = Some t'"
  shows "\<exists>s'. RightLeft (ptr t) s = Return (ptr t') s' \<and> tree_step s t s' t'
     \<and> length (nodes s') = length (nodes s)"
proof -
  from assms(3) obtain l a d k r r' where t: "t = Nd l a d k r"
    and rr: "a_RotateRight r = Some r'" and rl: "a_RotateLeft (Nd l a d k r') = Some t'"
    by (cases t) (auto split: option.splits)
  from assms(1,2) t have r: "tree_at (nodes s) r" "distinct (addrs r)"
    and na: "a < length (nodes s)"
      "nodes s ! a = Some \<lparr>data = d, height = k, left = ptr l, right = ptr r\<rparr>"
    by auto
  from RotateRight_tree [OF r rr] obtain s1 where
    1: "RotateRight (ptr r) s = Return (ptr r') s1" "tree_step s r s1 r'"
      "length (nodes s1) = length (nodes s)"
    by blast
  from set_child_right [OF assms(1,2) [unfolded t] 1(2,3)] obtain s2 where
    2: "set_right (Some a) (ptr r') s1 = Return () s2"
      "tree_step s (Nd l a d k r) s2 (Nd l a d k r')" "length (nodes s2) = length (nodes s)"
    by blast
  from RotateLeft_tree [OF tree_stepD [OF 2(2)] rl] obtain s3 where
    3: "RotateLeft (Some a) s2 = Return (ptr t') s3" "tree_step s2 (Nd l a d k r') s3 t'"
      "length (nodes s3) = length (nodes s2)"
    by auto
  have "RightLeft (Some a) s = Return (ptr t') s3"
    using na 1(1) 2(1) 3(1) by (simp add: RightLeft_def node_reads)
  moreover have "tree_step s t s3 t'"
    unfolding t using 2(2) 3(2) by (rule tree_step_trans)
  ultimately show ?thesis
    using 2(3) 3(3) unfolding t by (intro exI [of _ s3]) simp
qed

lemma kept_refl [simp]: "kept s s"
  by (simp add: kept_def)

lemma kept_trans: "kept s s1 \<Longrightarrow> kept s1 s2 \<Longrightarrow> kept s s2"
  by (simp add: kept_def)

lemma tree_step_kept: "tree_step s t s' t' \<Longrightarrow> length (nodes s') = length (nodes s) \<Longrightarrow> kept s s'"
  by (simp add: tree_step_def kept_def)

lemma holds_tree_step:
  "holds_tree s head T \<Longrightarrow> tree_step s T s' T' \<Longrightarrow> ptr T' = ptr T \<Longrightarrow> holds_tree s' head T'"
  by (auto simp: holds_tree_def tree_step_def split: option.splits)

lemma holds_treeD:
  assumes "holds_tree s head T"
  shows "tree_at (nodes s) T" "distinct (addrs T)"
  using assms by (auto simp: holds_tree_def split: option.splits)

lemma refresh_ctx:
  assumes "holds_tree s head (plug fs c)" "c \<noteq> Lf"
  shows "\<exists>s'. refresh (ptr c) s = Return () s' \<and> holds_tree s' head (plug fs (set_h c))
     \<and> kept s s'"
proof -
  note w = holds_treeD [OF assms(1)]
  from w have c: "tree_at (nodes s) c" "distinct (addrs c)"
    by (auto dest: plug_tree_at plug_distinct)
  from refresh_tree [OF c assms(2)] obtain s' where
    1: "refresh (ptr c) s = Return () s'" "tree_step s c s' (set_h c)"
      "length (nodes s') = length (nodes s)"
    by blast
  from tree_step_plug [OF w 1(2)] have
    2: "tree_step s (plug fs c) s' (plug fs (set_h c))" "ptr (plug fs (set_h c)) = ptr (plug fs c)"
    by simp_all
  from holds_tree_step [OF assms(1) 2] tree_step_kept [OF 1(2,3)] 1(1) show ?thesis
    by blast
qed

lemma reattach_tree:
  assumes "holds_tree s head (plug fs tmp)" "tree_step s tmp s1 z"
    "length (nodes s1) = length (nodes s)"
  shows "\<exists>s2. reattach (fst (pop (map entry fs))) head (ptr z) s1 = Return () s2
     \<and> holds_tree s2 head (plug fs z) \<and> kept s s2"
proof (cases fs)
  case Nil
  from assms(1) Nil obtain hc where h: "head = Some hc" "hc < length (cells s)"
    by (auto simp: holds_tree_def split: option.splits)
  from assms(2) have e: "cells s1 = cells s" "ints s1 = ints s" "alloc_ok s1 = alloc_ok s"
    and z: "tree_at (nodes s1) z" "distinct (addrs z)"
    by (simp_all add: tree_step_def)
  let ?s2 = "s1\<lparr>cells := (cells s1)[hc := ptr z]\<rparr>"
  have "reattach (fst (pop (map entry fs))) head (ptr z) s1 = Return () ?s2"
    using Nil h e by (simp add: reattach_def pop_def set_cell_def)
  moreover have "holds_tree ?s2 head (plug fs z)"
    using Nil h e z by (simp add: holds_tree_def)
  moreover have "kept s ?s2"
    using e assms(3) by (simp add: kept_def)
  ultimately show ?thesis by blast
next
  case (Cons f fs')
  note w = holds_treeD [OF assms(1)]
  from w Cons have w1: "tree_at (nodes s) (plug fs' (plug1 f tmp))"
    "distinct (addrs (plug fs' (plug1 f tmp)))"
    by simp_all
  then have p: "tree_at (nodes s) (plug1 f tmp)" "distinct (addrs (plug1 f tmp))"
    by (auto dest: plug_tree_at plug_distinct)
  have "\<exists>s2. reattach (Some (entry f)) head (ptr z) s1 = Return () s2
      \<and> tree_step s (plug1 f tmp) s2 (plug1 f z) \<and> length (nodes s2) = length (nodes s)"
  proof (cases f rule: frame_cases)
    case (LEFT a d k sib)
    from set_child_left [OF p [unfolded LEFT plug1.simps] assms(2,3)] LEFT
    show ?thesis by (simp add: reattach_def)
  next
    case (RIGHT a d k sib)
    from set_child_right [OF p [unfolded RIGHT plug1.simps] assms(2,3)] RIGHT
    show ?thesis by (simp add: reattach_def)
  qed
  then obtain s2 where 1: "reattach (Some (entry f)) head (ptr z) s1 = Return () s2"
    "tree_step s (plug1 f tmp) s2 (plug1 f z)" "length (nodes s2) = length (nodes s)"
    by blast
  from tree_step_plug [OF w1 1(2) ptr_plug1_cong] have
    2: "tree_step s (plug fs tmp) s2 (plug fs z)" "ptr (plug fs z) = ptr (plug fs tmp)"
    using Cons by simp_all
  from holds_tree_step [OF assms(1) 2] tree_step_kept [OF 1(2,3)] 1(1) Cons show ?thesis
    by (auto simp: pop_def)
qed

lemma left_rotated_shape:
  assumes "a_RotateLeft (Nd l a d k r) = Some z \<or> a_RightLeft (Nd l a d k r) = Some z"
  shows "\<exists>zl zb ze zk zr. z = Nd zl zb ze zk zr \<and> ptr zl = Some a \<and> zl \<noteq> Lf"
proof -
  have 1: "\<exists>zl zb ze zk zr. z = Nd zl zb ze zk zr \<and> ptr zl = Some a \<and> zl \<noteq> Lf"
    if "a_RotateLeft (Nd l a d k x) = Some z" for x
    using that by (cases x) auto
  from assms show ?thesis
    by (auto split: option.splits dest: 1)
qed

lemma right_rotated_shape:
  assumes "a_RotateRight (Nd l a d k r) = Some z \<or> a_LeftRight (Nd l a d k r) = Some z"
  shows "\<exists>zl zb ze zk zr. z = Nd zl zb ze zk zr \<and> ptr zr = Some a \<and> zr \<noteq> Lf"
proof -
  have 1: "\<exists>zl zb ze zk zr. z = Nd zl zb ze zk zr \<and> ptr zr = Some a \<and> zr \<noteq> Lf"
    if "a_RotateRight (Nd x a d k r) = Some z" for x
    using that by (cases x) auto
  from assms show ?thesis
    by (auto split: option.splits dest: 1)
qed

lemma refresh_bnd:
  "bnd (height_c p s) (\<lambda>h s. bnd (set_height p h s) g) = bnd (refresh p s) g"
  by (simp add: refresh_def bnd_assoc)

lemma snd_pop_entry: "snd (pop (map entry fs)) = map entry (tl fs)"
  by (cases fs) (simp_all add: pop_def)

lemma rebalance_tree:
  assumes "holds_tree s head (plug fs tmp)" "a_rebalance v tmp = Some (rot, c')"
  shows "\<exists>s'. rebalance (map entry fs) head (ptr tmp) v s
        = Return (map entry (if rot then tl fs else fs)) s'
     \<and> holds_tree s' head (plug fs c') \<and> kept s s'"
proof (cases tmp)
  case Lf
  with assms(2) show ?thesis by (simp add: a_rebalance.simps)
next
  case t: (Nd l a d k r)
  note w = holds_treeD [OF assms(1)]
  from w have tt: "tree_at (nodes s) tmp" "distinct (addrs tmp)"
    by (auto dest: plug_tree_at plug_distinct)
  from tt t have na: "a < length (nodes s)"
    "nodes s ! a = Some \<lparr>data = d, height = k, left = ptr l, right = ptr r\<rparr>"
    and sub: "tree_at (nodes s) l" "tree_at (nodes s) r"
    by simp_all
  have bf: "BalanceFactor (Some a) s = Return (ch l - ch r) s"
    using tt(1) unfolding t by (rule BalanceFactor_tree)
  consider (R) "ch l - ch r = - 2" | (L) "ch l - ch r \<noteq> - 2" "ch l - ch r = 2"
    | (N) "ch l - ch r \<noteq> - 2" "ch l - ch r \<noteq> 2"
    by blast
  then show ?thesis
  proof cases
    case N
    with assms(2) t have c': "c' = set_h tmp" "rot = False"
      by (auto simp: a_rebalance.simps)
    from refresh_ctx [OF assms(1)] t obtain s' where
      1: "refresh (Some a) s = Return () s'" "holds_tree s' head (plug fs (set_h tmp))" "kept s s'"
      by auto
    have "rebalance (map entry fs) head (Some a) v s = Return (map entry fs) s'"
      using bf N 1(1) by (simp add: rebalance_def refresh_bnd)
    with 1 c' t show ?thesis by auto
  next
    case R
    with assms(2) t obtain rl b e m rr z where r: "r = Nd rl b e m rr"
      and z: "(if v \<ge> e then a_RotateLeft tmp else a_RightLeft tmp) = Some z"
      and c': "c' = fix_left z" "rot = True"
      by (cases r) (auto simp: a_rebalance.simps
          simp del: a_RotateLeft.simps a_RotateRight.simps a_LeftRight.simps a_RightLeft.simps)
    from sub(2) r have nb: "b < length (nodes s)" "get_data (Some b) s = Return e s"
      by (simp_all add: node_reads)
    have "\<exists>s1. (if v \<ge> e then RightRight (Some a) s else RightLeft (Some a) s) = Return (ptr z) s1
        \<and> tree_step s tmp s1 z \<and> length (nodes s1) = length (nodes s)"
    proof (cases "v \<ge> e")
      case True
      with z RotateLeft_tree [OF tt, of z] t show ?thesis
        by (simp add: RightRight_def)
    next
      case False
      with z RightLeft_tree [OF tt, of z] t show ?thesis
        by simp
    qed
    then obtain s1 where
      1: "(if v \<ge> e then RightRight (Some a) s else RightLeft (Some a) s) = Return (ptr z) s1"
        "tree_step s tmp s1 z" "length (nodes s1) = length (nodes s)"
      by blast
    from reattach_tree [OF assms(1) 1(2,3)] obtain s2 where
      2: "reattach (fst (pop (map entry fs))) head (ptr z) s1 = Return () s2"
        "holds_tree s2 head (plug fs z)" "kept s s2"
      by blast
    from z t left_rotated_shape [of l a d k r z] obtain zl zb ze zk zr where
      zs: "z = Nd zl zb ze zk zr" "ptr zl = Some a" "zl \<noteq> Lf"
      by (auto split: if_splits)
    from 2(2) zs have "holds_tree s2 head (plug (Fr LEFT zb ze zk zr # fs) zl)"
      by simp
    from refresh_ctx [OF this zs(3)] zs obtain s3 where
      3: "refresh (Some a) s2 = Return () s3" "holds_tree s3 head (plug fs (fix_left z))"
        "kept s2 s3"
      by auto
    have "rebalance (map entry fs) head (Some a) v s = Return (map entry (tl fs)) s3"
      using bf R na r nb 1(1) 2(1) 3(1)
      by (simp add: rebalance_def refresh_bnd case_prod_unfold node_reads snd_pop_entry)
    with 3 2(3) c' t show ?thesis
      by (auto intro: kept_trans)
  next
    case L
    with assms(2) t obtain ll b e m lr z where l: "l = Nd ll b e m lr"
      and z: "(if v < e then a_RotateRight tmp else a_LeftRight tmp) = Some z"
      and c': "c' = fix_right z" "rot = True"
      by (cases l) (auto simp: a_rebalance.simps
          simp del: a_RotateLeft.simps a_RotateRight.simps a_LeftRight.simps a_RightLeft.simps)
    from sub(1) l have nb: "b < length (nodes s)" "get_data (Some b) s = Return e s"
      by (simp_all add: node_reads)
    have "\<exists>s1. (if v < e then LeftLeft (Some a) s else LeftRight (Some a) s) = Return (ptr z) s1
        \<and> tree_step s tmp s1 z \<and> length (nodes s1) = length (nodes s)"
    proof (cases "v < e")
      case True
      with z RotateRight_tree [OF tt, of z] t show ?thesis
        by (simp add: LeftLeft_def)
    next
      case False
      with z LeftRight_tree [OF tt, of z] t show ?thesis
        by simp
    qed
    then obtain s1 where
      1: "(if v < e then LeftLeft (Some a) s else LeftRight (Some a) s) = Return (ptr z) s1"
        "tree_step s tmp s1 z" "length (nodes s1) = length (nodes s)"
      by blast
    from reattach_tree [OF assms(1) 1(2,3)] obtain s2 where
      2: "reattach (fst (pop (map entry fs))) head (ptr z) s1 = Return () s2"
        "holds_tree s2 head (plug fs z)" "kept s s2"
      by blast
    from z t right_rotated_shape [of l a d k r z] obtain zl zb ze zk zr where
      zs: "z = Nd zl zb ze zk zr" "ptr zr = Some a" "zr \<noteq> Lf"
      by (auto split: if_splits)
    from 2(2) zs have "holds_tree s2 head (plug (Fr RIGHT zb ze zk zl # fs) zr)"
      by simp
    from refresh_ctx [OF this zs(3)] zs obtain s3 where
      3: "refresh (Some a) s2 = Return () s3" "holds_tree s3 head (plug fs (fix_right z))"
        "kept s2 s3"
      by auto
    have "rebalance (map entry fs) head (Some a) v s = Return (map entry (tl fs)) s3"
      using bf L na l nb 1(1) 2(1) 3(1)
      by (simp add: rebalance_def refresh_bnd case_prod_unfold node_reads snd_pop_entry)
    with 3 2(3) c' t show ?thesis
      by (auto intro: kept_trans)
  qed
qed

lemma unwind_tree:
  assumes "holds_tree s head (plug fs c)" "a_unwind v fs c = Some T"
  shows "\<exists>s'. unwind head v (map entry fs) s = Return [] s' \<and> holds_tree s' head T \<and> kept s s'"
  using assms
proof (induction v fs c arbitrary: s rule: a_unwind.induct)
  case (1 v c)
  then show ?case
    by (subst unwind.simps) (auto simp: pop_def)
next
  case (2 v f fs c)
  from "2.prems"(2) obtain rot c' where r: "a_rebalance v (plug1 f c) = Some (rot, c')"
    by (auto split: option.splits)
  from "2.prems"(1) have h: "holds_tree s head (plug fs (plug1 f c))"
    by simp
  from rebalance_tree [OF h r] obtain s1 where
    1: "rebalance (map entry fs) head (ptr (plug1 f c)) v s
        = Return (map entry (if rot then tl fs else fs)) s1"
      "holds_tree s1 head (plug fs c')" "kept s s1"
    by blast
  have pf: "ptr (plug1 f c) = fst (entry f)"
    by (cases f rule: frame_cases) simp_all
  have u: "unwind head v (map entry (f # fs)) s
      = unwind head v (map entry (if rot then tl fs else fs)) s1"
    using 1(1) pf by (subst unwind.simps) (simp add: pop_def)
  show ?case
  proof (cases rot)
    case False
    with r have r': "a_rebalance v (plug1 f c) = Some (False, c')" by simp
    with "2.prems"(2) have a: "a_unwind v fs c' = Some T" by simp
    from "2.IH"(2) [OF r' refl refl 1(2) a] obtain s' where
      "unwind head v (map entry fs) s1 = Return [] s'" "holds_tree s' head T" "kept s1 s'"
      by blast
    with u False 1(3) show ?thesis
      by (auto intro: kept_trans)
  next
    case True
    with r have r': "a_rebalance v (plug1 f c) = Some (True, c')" by simp
    show ?thesis
    proof (cases fs)
      case Nil
      with r' "2.prems"(2) have "T = c'" by simp
      moreover have "unwind head v [] s1 = Return [] s1"
        by (subst unwind.simps) (simp add: pop_def)
      ultimately show ?thesis
        using u True Nil 1(2,3) by auto
    next
      case (Cons f' fs')
      with r' "2.prems"(2) have a: "a_unwind v fs' (plug1 f' c') = Some T" by simp
      from 1(2) Cons have "holds_tree s1 head (plug fs' (plug1 f' c'))" by simp
      from "2.IH"(1) [OF r' refl refl Cons this a] obtain s' where
        "unwind head v (map entry fs') s1 = Return [] s'" "holds_tree s' head T" "kept s1 s'"
        by blast
      with u True Cons 1(3) show ?thesis
        by (auto intro: kept_trans)
    qed
  qed
qed

lemma grew_kept: "grew s s1 \<Longrightarrow> kept s1 s2 \<Longrightarrow> grew s s2"
  by (simp add: grew_def kept_def)

lemma kept_grew: "kept s s1 \<Longrightarrow> grew s1 s2 \<Longrightarrow> grew s s2"
  by (simp add: grew_def kept_def)

lemma holds_tree_cell: "holds_tree s head T \<Longrightarrow> get_cell head s = Return (ptr T) s"
  by (auto simp: holds_tree_def get_cell_def split: option.splits)

lemma insert_left_tree:
  assumes "holds_tree s head (plug fs (Nd Lf a d k r))" "alloc_ok s (nalloc s)"
    "a_unwind v fs (set_h (Nd (Nd Lf (length (nodes s)) v 0 Lf) a d k r)) = Some T"
  shows "\<exists>s'. insert_left head (Some a) v (map entry fs) s = Return (ptr T, []) s'
     \<and> holds_tree s' head T \<and> grew s s'"
proof -
  let ?n = "length (nodes s)"
  let ?c = "Nd Lf a d k r"
  let ?c' = "Nd (Nd Lf ?n v 0 Lf) a d k r"
  note w = holds_treeD [OF assms(1)]
  from w have c: "tree_at (nodes s) ?c" "distinct (addrs ?c)"
    by (auto dest: plug_tree_at plug_distinct)
  then have na: "a < ?n" "nodes s ! a = Some \<lparr>data = d, height = k, left = None, right = ptr r\<rparr>"
    and r: "tree_at (nodes s) r" "distinct (addrs r)" "a \<notin> set (addrs r)"
    by simp_all
  have rv: "\<forall>x \<in> set (addrs r). x < ?n"
    using r(1) by (blast intro: tree_at_addr_valid)
  let ?s1 = "s\<lparr>nodes := nodes s @ [Some \<lparr>data = 0, height = 0, left = None, right = None\<rparr>],
      nalloc := nalloc s + 1\<rparr>"
  let ?s2 = "?s1\<lparr>nodes := (nodes ?s1)[a := Some \<lparr>data = d, height = k, left = Some ?n, right = ptr r\<rparr>]\<rparr>"
  let ?s3 = "?s2\<lparr>nodes := (nodes ?s2)[?n := Some \<lparr>data = v, height = 0, left = None, right = None\<rparr>]\<rparr>"
  have 1: "calloc_avl_t s = (Some ?n, ?s1)"
    using assms(2) by (simp add: calloc_avl_t_def)
  have 2: "set_left (Some a) (Some ?n) ?s1 = Return () ?s2"
    using na by (simp add: node_writes nth_append)
  have w2: "get_left (Some a) ?s2 = Return (Some ?n) ?s2"
    using na by (simp add: node_reads nth_append)
  have 3: "set_data (Some ?n) v ?s2 = Return () ?s3"
    using na by (simp add: node_writes nth_append)
  have same: "nodes ?s3 ! x = nodes s ! x" if "x < ?n" "x \<noteq> a" for x
    using that by (simp add: nth_list_update nth_append)
  have "\<forall>x \<in> set (addrs r). nodes ?s3 ! x = nodes s ! x"
    using rv r(3) same by blast
  then have r3: "tree_at (nodes ?s3) r"
    by (rule tree_at_cong [OF r(1)]) simp
  have n3: "nodes ?s3 ! ?n = Some \<lparr>data = v, height = 0, left = None, right = None\<rparr>"
    "nodes ?s3 ! a = Some \<lparr>data = d, height = k, left = Some ?n, right = ptr r\<rparr>"
    "length (nodes ?s3) = Suc ?n"
    using na by (simp_all add: nth_list_update nth_append)
  have t3: "tree_at (nodes ?s3) ?c'"
    using na r3 n3 by (simp del: mem.simps)
  have d3: "distinct (addrs ?c')"
    using r rv na by auto
  have st: "tree_step s ?c ?s3 ?c'"
    unfolding tree_step_def using t3 d3 same n3(3) by (auto simp del: tree_at.simps)
  from tree_step_plug [OF w st] have
    "tree_step s (plug fs ?c) ?s3 (plug fs ?c')" "ptr (plug fs ?c') = ptr (plug fs ?c)"
    by simp_all
  from holds_tree_step [OF assms(1) this] have h3: "holds_tree ?s3 head (plug fs ?c')" .
  from refresh_ctx [OF h3] obtain s4 where
    4: "refresh (Some a) ?s3 = Return () s4" "holds_tree s4 head (plug fs (set_h ?c'))"
      "kept ?s3 s4"
    by auto
  from unwind_tree [OF 4(2) assms(3)] obtain s5 where
    5: "unwind head v (map entry fs) s4 = Return [] s5" "holds_tree s5 head T" "kept s4 s5"
    by blast
  have "insert_left head (Some a) v (map entry fs) s = Return (ptr T, []) s5"
    unfolding insert_left_def 1
    using 2 w2 3 4(1) 5(1) holds_tree_cell [OF 5(2)]
    by (simp add: refresh_bnd)
  moreover have "grew s s5"
    using 4(3) 5(3) by (simp add: grew_def kept_def)
  ultimately show ?thesis
    using 5(2) by blast
qed

lemma insert_right_tree:
  assumes "holds_tree s head (plug fs (Nd l a d k Lf))" "alloc_ok s (nalloc s)"
    "a_unwind v fs (set_h (Nd l a d k (Nd Lf (length (nodes s)) v 0 Lf))) = Some T"
  shows "\<exists>s'. insert_right head (Some a) v (map entry fs) s = Return (ptr T, []) s'
     \<and> holds_tree s' head T \<and> grew s s'"
proof -
  let ?n = "length (nodes s)"
  let ?c = "Nd l a d k Lf"
  let ?c' = "Nd l a d k (Nd Lf ?n v 0 Lf)"
  note w = holds_treeD [OF assms(1)]
  from w have c: "tree_at (nodes s) ?c" "distinct (addrs ?c)"
    by (auto dest: plug_tree_at plug_distinct)
  then have na: "a < ?n" "nodes s ! a = Some \<lparr>data = d, height = k, left = ptr l, right = None\<rparr>"
    and r: "tree_at (nodes s) l" "distinct (addrs l)" "a \<notin> set (addrs l)"
    by simp_all
  have rv: "\<forall>x \<in> set (addrs l). x < ?n"
    using r(1) by (blast intro: tree_at_addr_valid)
  let ?s1 = "s\<lparr>nodes := nodes s @ [Some \<lparr>data = 0, height = 0, left = None, right = None\<rparr>],
      nalloc := nalloc s + 1\<rparr>"
  let ?s2 = "?s1\<lparr>nodes := (nodes ?s1)[a := Some \<lparr>data = d, height = k, left = ptr l, right = Some ?n\<rparr>]\<rparr>"
  let ?s3 = "?s2\<lparr>nodes := (nodes ?s2)[?n := Some \<lparr>data = v, height = 0, left = None, right = None\<rparr>]\<rparr>"
  have 1: "calloc_avl_t s = (Some ?n, ?s1)"
    using assms(2) by (simp add: calloc_avl_t_def)
  have 2: "set_right (Some a) (Some ?n) ?s1 = Return () ?s2"
    using na by (simp add: node_writes nth_append)
  have w2: "get_right (Some a) ?s2 = Return (Some ?n) ?s2"
    using na by (simp add: node_reads nth_append)
  have 3: "set_data (Some ?n) v ?s2 = Return () ?s3"
    using na by (simp add: node_writes nth_append)
  have same: "nodes ?s3 ! x = nodes s ! x" if "x < ?n" "x \<noteq> a" for x
    using that by (simp add: nth_list_update nth_append)
  have "\<forall>x \<in> set (addrs l). nodes ?s3 ! x = nodes s ! x"
    using rv r(3) same by blast
  then have r3: "tree_at (nodes ?s3) l"
    by (rule tree_at_cong [OF r(1)]) simp
  have n3: "nodes ?s3 ! ?n = Some \<lparr>data = v, height = 0, left = None, right = None\<rparr>"
    "nodes ?s3 ! a = Some \<lparr>data = d, height = k, left = ptr l, right = Some ?n\<rparr>"
    "length (nodes ?s3) = Suc ?n"
    using na by (simp_all add: nth_list_update nth_append)
  have t3: "tree_at (nodes ?s3) ?c'"
    using na r3 n3 by (simp del: mem.simps)
  have d3: "distinct (addrs ?c')"
    using r rv na by auto
  have st: "tree_step s ?c ?s3 ?c'"
    unfolding tree_step_def using t3 d3 same n3(3) by (auto simp del: tree_at.simps)
  from tree_step_plug [OF w st] have
    "tree_step s (plug fs ?c) ?s3 (plug fs ?c')" "ptr (plug fs ?c') = ptr (plug fs ?c)"
    by simp_all
  from holds_tree_step [OF assms(1) this] have h3: "holds_tree ?s3 head (plug fs ?c')" .
  from refresh_ctx [OF h3] obtain s4 where
    4: "refresh (Some a) ?s3 = Return () s4" "holds_tree s4 head (plug fs (set_h ?c'))"
      "kept ?s3 s4"
    by auto
  from unwind_tree [OF 4(2) assms(3)] obtain s5 where
    5: "unwind head v (map entry fs) s4 = Return [] s5" "holds_tree s5 head T" "kept s4 s5"
    by blast
  have "insert_right head (Some a) v (map entry fs) s = Return (ptr T, []) s5"
    unfolding insert_right_def 1
    using 2 w2 3 4(1) 5(1) holds_tree_cell [OF 5(2)]
    by (simp add: refresh_bnd)
  moreover have "grew s s5"
    using 4(3) 5(3) by (simp add: grew_def kept_def)
  ultimately show ?thesis
    using 5(2) by blast
qed

lemma arr_at_ints: "arr_at arr i s = Return v s \<Longrightarrow> ints s' = ints s \<Longrightarrow> arr_at arr i s' = Return v s'"
  by (auto simp: arr_at_def split: option.splits if_splits)

lemma holds_tree_nalloc [simp]: "holds_tree (s\<lparr>nalloc := k\<rparr>) head T = holds_tree s head T"
  by (cases head) (simp_all add: holds_tree_def)

lemma while_root_tree:
  assumes "holds_tree s head (plug fs c)" "c \<noteq> Lf" "\<forall>k. alloc_ok s k"
    "arr_at arr i s = Return v s" "a_while_root v (length (nodes s)) fs c = Some T"
  shows "\<exists>s'. while_root arr i head (ptr c) (map entry fs) s = Some (Return (ptr T, []) s')
     \<and> holds_tree s' head T \<and> grew s s'"
  using assms
proof (induction c arbitrary: fs s)
  case Lf
  then show ?case by simp
next
  case (Nd l a d k r)
  note w = holds_treeD [OF Nd.prems(1)]
  from w have c: "tree_at (nodes s) (Nd l a d k r)"
    by (auto dest: plug_tree_at)
  then have rd: "get_data (Some a) s = Return d s" "get_left (Some a) s = Return (ptr l) s"
    "get_right (Some a) s = Return (ptr r) s"
    by (simp_all add: node_reads)
  let ?s1 = "s\<lparr>nalloc := nalloc s + 1\<rparr>"
  have m: "malloc_nodedata s = (True, ?s1)"
    using Nd.prems(3) by (simp add: malloc_nodedata_def)
  have ok1: "\<forall>k. alloc_ok ?s1 k" using Nd.prems(3) by simp
  have ar1: "arr_at arr i ?s1 = Return v ?s1"
    by (rule arr_at_ints [OF Nd.prems(4)]) simp
  show ?case
  proof (cases "v < d")
    case v: True
    show ?thesis
    proof (cases "l = Lf")
      case True
      with v Nd.prems(5) have
        "a_unwind v fs (set_h (Nd (Nd Lf (length (nodes s)) v 0 Lf) a d k r)) = Some T"
        by simp
      from insert_left_tree [OF Nd.prems(1) [unfolded True] _ this] Nd.prems(3) obtain s' where
        "insert_left head (Some a) v (map entry fs) s = Return (ptr T, []) s'"
        "holds_tree s' head T" "grew s s'"
        by blast
      with v True rd Nd.prems(4) show ?thesis
        by (subst while_root.simps) simp
    next
      case False
      with v Nd.prems(5) have
        a: "a_while_root v (length (nodes ?s1)) (Fr LEFT a d k r # fs) l = Some T"
        by simp
      have h: "holds_tree ?s1 head (plug (Fr LEFT a d k r # fs) l)"
        using Nd.prems(1) by simp
      from Nd.IH(1) [OF h False ok1 ar1 a] obtain s' where
        "while_root arr i head (ptr l) (map entry (Fr LEFT a d k r # fs)) ?s1
           = Some (Return (ptr T, []) s')" "holds_tree s' head T" "grew ?s1 s'"
        by blast
      with v False rd m Nd.prems(4) show ?thesis
        by (subst while_root.simps) (simp add: push_def grew_def)
    qed
  next
    case v: False
    show ?thesis
    proof (cases "r = Lf")
      case True
      with v Nd.prems(5) have
        "a_unwind v fs (set_h (Nd l a d k (Nd Lf (length (nodes s)) v 0 Lf))) = Some T"
        by simp
      from insert_right_tree [OF Nd.prems(1) [unfolded True] _ this] Nd.prems(3) obtain s' where
        "insert_right head (Some a) v (map entry fs) s = Return (ptr T, []) s'"
        "holds_tree s' head T" "grew s s'"
        by blast
      with v True rd Nd.prems(4) show ?thesis
        by (subst while_root.simps) simp
    next
      case False
      with v Nd.prems(5) have
        a: "a_while_root v (length (nodes ?s1)) (Fr RIGHT a d k l # fs) r = Some T"
        by simp
      have h: "holds_tree ?s1 head (plug (Fr RIGHT a d k l # fs) r)"
        using Nd.prems(1) by simp
      from Nd.IH(2) [OF h False ok1 ar1 a] obtain s' where
        "while_root arr i head (ptr r) (map entry (Fr RIGHT a d k l # fs)) ?s1
           = Some (Return (ptr T, []) s')" "holds_tree s' head T" "grew ?s1 s'"
        by blast
      with v False rd m Nd.prems(4) show ?thesis
        by (subst while_root.simps) (simp add: push_def grew_def)
    qed
  qed
qed

lemma for_i_snoc:
  "i \<le> n \<Longrightarrow>
   for_i arr (n + 1) head i root st s =
     (case for_i arr n head i root st s of
        None \<Rightarrow> None
      | Some Crash \<Rightarrow> Some Crash
      | Some (Return (r, st') s') \<Rightarrow> while_root arr n head r st' s')"
proof (induction arr n head i root st s rule: for_i.induct)
  case (1 arr len head i root stack s)
  show ?case
  proof (cases "i < len")
    case False
    with "1.prems" have "i = len" by simp
    then show ?thesis
      by (subst for_i.simps, subst (2) for_i.simps, subst for_i.simps)
         (auto split: option.splits outcome.splits)
  next
    case True
    show ?thesis
    proof (cases "while_root arr i head root stack s")
      case None
      with True show ?thesis
        by (subst for_i.simps, subst (2) for_i.simps) simp
    next
      case (Some y)
      show ?thesis
      proof (cases y)
        case Crash
        with Some True show ?thesis
          by (subst for_i.simps, subst (2) for_i.simps) simp
      next
        case (Return x s')
        obtain r st' where x: "x = (r, st')" by (cases x)
        from True have "i + 1 \<le> len" by simp
        from "1.IH" [OF True Some [unfolded Return x] refl refl this] Some Return x True
        show ?thesis
          by (subst for_i.simps, subst (2) for_i.simps) simp
      qed
    qed
  qed
qed

lemma for_i_split:
  "i \<le> k \<Longrightarrow> k \<le> len \<Longrightarrow>
   for_i arr len head i root st s =
     (case for_i arr k head i root st s of
        None \<Rightarrow> None
      | Some Crash \<Rightarrow> Some Crash
      | Some (Return (r, st') s') \<Rightarrow> for_i arr len head k r st' s')"
proof (induction arr k head i root st s rule: for_i.induct)
  case (1 arr k head i root stack s)
  show ?case
  proof (cases "i < k")
    case False
    with "1.prems" have "i = k" by simp
    then show ?thesis
      by (subst (2) for_i.simps) simp
  next
    case True
    show ?thesis
    proof (cases "while_root arr i head root stack s")
      case None
      with True "1.prems" show ?thesis
        by (subst for_i.simps, subst (2) for_i.simps) simp
    next
      case (Some y)
      show ?thesis
      proof (cases y)
        case Crash
        with Some True "1.prems" show ?thesis
          by (subst for_i.simps, subst (2) for_i.simps) simp
      next
        case (Return x s')
        obtain r st' where x: "x = (r, st')" by (cases x)
        from True have "i + 1 \<le> k" by simp
        from "1.IH" [OF True Some [unfolded Return x] refl refl this "1.prems"(2)]
          Some Return x True "1.prems"
        show ?thesis
          by (subst for_i.simps, subst (2) for_i.simps) simp
      qed
    qed
  qed
qed

lemma arr_at_vals:
  assumes "b + nat len \<le> length (ints s0)" "ints s = ints s0" "k < nat len"
  shows "arr_at (Some b) (int k) s = Return (arr_vals s0 b len ! k) s"
  using assms by (simp add: arr_at_def arr_vals_def)

lemma pairs_Nil [simp]: "pairs t = [] \<longleftrightarrow> t = Lf"
  by (cases t) simp_all

lemma build_step:
  assumes "build_inv vals n0 s0 head k s T" "k < nat len" "b + nat len \<le> length (ints s0)"
    "vals = arr_vals s0 b len"
  shows "\<exists>s' T'. while_root (Some b) (int k) head (ptr T) [] s = Some (Return (ptr T', []) s')
     \<and> build_inv vals n0 s0 head (Suc k) s' T'"
proof -
  from assms(1) have h: "holds_tree s head T" and nl: "T \<noteq> Lf" and a: "avl T" "hts_ok T"
    and so: "sorted (pairs T)" and se: "set (pairs T) = (\<lambda>j. (vals ! j, n0 + j)) ` {..<k}"
    and ln: "length (nodes s) = n0 + k" and ie: "ints s = ints s0" and ok: "\<forall>j. alloc_ok s j"
    by (simp_all add: build_inv_def)
  let ?v = "vals ! k"
  let ?n = "length (nodes s)"
  have ar: "arr_at (Some b) (int k) s = Return ?v s"
    unfolding assms(4) by (rule arr_at_vals [OF assms(3) ie assms(2)])
  from a_while_root_avl [of "[]" T ?v ?n] a nl obtain T' where
    w: "a_while_root ?v ?n [] T = Some T'" and a': "avl T'" "hts_ok T'"
    by auto
  from while_root_tree [of s head "[]" T "Some b" "int k" ?v T'] h nl ok ar w obtain s' where
    r: "while_root (Some b) (int k) head (ptr T) [] s = Some (Return (ptr T', []) s')"
    and h': "holds_tree s' head T'" and g: "grew s s'"
    by auto
  from pairs_while_root [OF w] have p: "pairs T' = pairs (bst_ins ?v ?n T)"
    by simp
  have "\<forall>x \<in> set (addrs T). x < ?n"
    using holds_treeD(1) [OF h] by (blast intro: tree_at_addr_valid)
  from sorted_pairs_bst_ins [OF so this] p have so': "sorted (pairs T')"
    by simp
  have se': "set (pairs T') = (\<lambda>j. (vals ! j, n0 + j)) ` {..<Suc k}"
    using p se ln by (simp add: set_pairs_bst_ins lessThan_Suc)
  then have nl': "T' \<noteq> Lf"
    by auto
  from g ln ie ok have "length (nodes s') = n0 + Suc k" "ints s' = ints s0" "\<forall>j. alloc_ok s' j"
    by (simp_all add: grew_def)
  with h' nl' a' so' se' have "build_inv vals n0 s0 head (Suc k) s' T'"
    by (simp add: build_inv_def)
  with r show ?thesis by blast
qed

lemma build_init:
  assumes "valid_array s arr len" "\<forall>j. alloc_ok s j"
  shows "\<exists>b s0. arr = Some b \<and>
     generate_avl_init arr len s
       = Return (Some (Some (length (cells s)), Some (length (nodes s)))) s0
     \<and> build_inv (arr_vals s b len) (length (nodes s)) s (Some (length (cells s))) 1 s0
          (Nd Lf (length (nodes s)) (arr_vals s b len ! 0) 0 Lf)"
proof -
  from assms(1) obtain b where b: "arr = Some b" "0 < len" "b + nat len \<le> length (ints s)"
    by (auto simp: valid_array_def split: option.splits)
  let ?n = "length (nodes s)"
  let ?v = "arr_vals s b len ! 0"
  let ?s0 = "s\<lparr>nodes := nodes s @ [Some \<lparr>data = ?v, height = 0, left = None, right = None\<rparr>],
     cells := cells s @ [Some ?n], nalloc := nalloc s + 1 + 1\<rparr>"
  from b have v: "ints s ! b = ?v" "b < length (ints s)"
    by (simp_all add: arr_vals_def)
  have "generate_avl_init arr len s = Return (Some (Some (length (cells s)), Some ?n)) ?s0"
    using b assms(2) v
    by (simp add: generate_avl_init_def calloc_avl_t_def calloc_avl_p_def arr_at_def set_data_def
        get_node_def put_node_def set_cell_def)
  moreover have "build_inv (arr_vals s b len) ?n s (Some (length (cells s))) 1 ?s0 (Nd Lf ?n ?v 0 Lf)"
    using assms(2) by (simp add: build_inv_def holds_tree_def lessThan_Suc)
  ultimately show ?thesis using b by blast
qed

lemma build_prefix:
  assumes "build_inv vals n0 s0' head 1 s0 T0" "b + nat len \<le> length (ints s0')"
    "vals = arr_vals s0' b len" "1 \<le> k" "k \<le> nat len"
  shows "\<exists>s T. for_i (Some b) (int k) head 1 (ptr T0) [] s0 = Some (Return (ptr T, []) s)
     \<and> build_inv vals n0 s0' head k s T"
  using assms(4,5)
proof (induction k)
  case 0
  then show ?case by simp
next
  case (Suc k)
  show ?case
  proof (cases "k = 0")
    case True
    have "for_i (Some b) 1 head 1 (ptr T0) [] s0 = Some (Return (ptr T0, []) s0)"
      by (subst for_i.simps) simp
    with True assms(1) show ?thesis by auto
  next
    case False
    with Suc obtain s T where
      f: "for_i (Some b) (int k) head 1 (ptr T0) [] s0 = Some (Return (ptr T, []) s)"
      and i: "build_inv vals n0 s0' head k s T"
      by auto
    from Suc.prems have "k < nat len" by simp
    from build_step [OF i this assms(2,3)] obtain s' T' where
      w: "while_root (Some b) (int k) head (ptr T) [] s = Some (Return (ptr T', []) s')"
      and i': "build_inv vals n0 s0' head (Suc k) s' T'"
      by blast
    from False have "1 \<le> int k" by simp
    from for_i_snoc [OF this, of "Some b" head "ptr T0" "[]" s0] f w
    have "for_i (Some b) (int (Suc k)) head 1 (ptr T0) [] s0 = Some (Return (ptr T', []) s')"
      by (simp add: add.commute)
    with i' show ?thesis by blast
  qed
qed

lemma stable_order:
  fixes js :: "nat list" and vals :: "int list"
  assumes so: "sorted (map (\<lambda>j. (vals ! j, n0 + j)) js)" and se: "set js = {..<n}"
    and di: "distinct js" and n: "n = length vals"
  shows "map (\<lambda>j. vals ! j) js = sort vals"
    and "js = sort_key (\<lambda>j. vals ! j) [0..<n]"
proof -
  have "set js = set [0..<n]"
    using se by (simp add: atLeast0LessThan)
  with set_eq_iff_mset_eq_distinct [of js "[0..<n]"] di have ms: "mset js = mset [0..<n]"
    by simp
  from so have sw: "sorted_wrt (\<lambda>i j. (vals ! i, n0 + i) \<le> (vals ! j, n0 + j)) js"
    by (simp add: sorted_map)
  then have "sorted_wrt (\<lambda>i j. vals ! i \<le> vals ! j) js"
    by (rule sorted_wrt_mono_rel [rotated]) auto
  then have s1: "sorted (map (\<lambda>j. vals ! j) js)"
    by (simp add: sorted_map)
  have "mset (map (\<lambda>j. vals ! j) js) = mset (map (\<lambda>j. vals ! j) [0..<n])"
    using arg_cong [OF ms, of "image_mset ((!) vals)"] by simp
  also have "map (\<lambda>j. vals ! j) [0..<n] = vals"
    unfolding n by (rule map_nth)
  finally have "mset (map (\<lambda>j. vals ! j) js) = mset vals" .
  from properties_for_sort [OF this s1] show "map (\<lambda>j. vals ! j) js = sort vals"
    by simp
  have "sort_key (\<lambda>j. vals ! j) [0..<n] = js"
  proof (rule properties_for_sort_key [OF ms _ s1])
    fix k
    let ?P = "\<lambda>x. vals ! k = vals ! x"
    have "sorted_wrt (\<lambda>i j. (vals ! i, n0 + i) \<le> (vals ! j, n0 + j)) (filter ?P js)"
      using sw by (rule sorted_wrt_filter)
    then have "sorted_wrt (\<le>) (filter ?P js)"
      by (rule sorted_wrt_mono_rel [rotated]) auto
    then have "sorted (filter ?P js)" by simp
    moreover have "distinct (filter ?P js)" using di by simp
    moreover have "sorted (filter ?P [0..<n])" by (rule sorted_wrt_filter) simp
    moreover have "distinct (filter ?P [0..<n])" by simp
    moreover have "set (filter ?P js) = set (filter ?P [0..<n])"
      using se by auto
    ultimately show "filter ?P js = filter ?P [0..<n]"
      by (rule sorted_distinct_set_unique)
  qed
  then show "js = sort_key (\<lambda>j. vals ! j) [0..<n]" by simp
qed

lemma after_each_intro:
  assumes init: "generate_avl_init arr len s = Return (Some (head, root)) s0"
    and len: "0 < len"
    and pre: "\<And>k. 1 \<le> k \<Longrightarrow> k \<le> nat len \<Longrightarrow>
      \<exists>r_k s_k. for_i arr (int k) head 1 root [] s0 = Some (Return (r_k, []) s_k) \<and> P s_k head"
  shows "after_each_insertion arr len s P"
proof -
  have each: "\<exists>root_k s_k. for_i arr k head 1 root [] s0 = Some (Return (root_k, []) s_k)
      \<and> for_i arr len head 1 root [] s0 = for_i arr len head k root_k [] s_k \<and> P s_k head"
    if k: "1 \<le> k \<and> k \<le> len" for k :: int
  proof -
    from k have "1 \<le> nat k" "nat k \<le> nat len" by linarith+
    from pre [OF this] k obtain r_k s_k where
      f: "for_i arr k head 1 root [] s0 = Some (Return (r_k, []) s_k)" and p: "P s_k head"
      by auto
    from k for_i_split [of 1 k len arr head root "[]" s0] f
    have "for_i arr len head 1 root [] s0 = for_i arr len head k r_k [] s_k"
      by simp
    with f p show ?thesis by blast
  qed
  from len have "1 \<le> nat len" "nat len \<le> nat len" by linarith+
  from pre [OF this] len obtain r s' where
    f: "for_i arr len head 1 root [] s0 = Some (Return (r, []) s')" and p: "P s' head"
    by auto
  from init f have "generate_avl arr len s = Some (Return head s')"
    by (simp add: generate_avl_def)
  with f p have fin: "\<exists>root' s'. for_i arr len head 1 root [] s0 = Some (Return (root', []) s')
      \<and> generate_avl arr len s = Some (Return head s') \<and> P s' head"
    by blast
  from init each fin show ?thesis
    unfolding after_each_insertion_def by blast
qed

lemma build_each:
  assumes "0 < len" "b + nat len \<le> length (ints s)" "\<forall>j. alloc_ok s j"
    and P: "\<And>k s' T. 1 \<le> k \<Longrightarrow> k \<le> nat len \<Longrightarrow>
      build_inv (arr_vals s b len) (length (nodes s)) s (Some (length (cells s))) k s' T
      \<Longrightarrow> P s' (Some (length (cells s)))"
  shows "after_each_insertion (Some b) len s P"
proof -
  have "valid_array s (Some b) len"
    using assms(1,2) by (simp add: valid_array_def)
  from build_init [OF this assms(3)] obtain s0 where
    i: "generate_avl_init (Some b) len s
       = Return (Some (Some (length (cells s)), Some (length (nodes s)))) s0"
    and v: "build_inv (arr_vals s b len) (length (nodes s)) s (Some (length (cells s))) 1 s0
          (Nd Lf (length (nodes s)) (arr_vals s b len ! 0) 0 Lf)"
    by auto
  show ?thesis
  proof (rule after_each_intro [OF i assms(1)])
    fix k :: nat assume k: "1 \<le> k" "k \<le> nat len"
    from build_prefix [OF v assms(2) refl k] obtain s' T where
      "for_i (Some b) (int k) (Some (length (cells s))) 1 (Some (length (nodes s))) [] s0
         = Some (Return (ptr T, []) s')"
      "build_inv (arr_vals s b len) (length (nodes s)) s (Some (length (cells s))) k s' T"
      by auto
    with P [OF k] show "\<exists>r_k s_k.
        for_i (Some b) (int k) (Some (length (cells s))) 1 (Some (length (nodes s))) [] s0
          = Some (Return (r_k, []) s_k) \<and> P s_k (Some (length (cells s)))"
      by blast
  qed
qed

lemma build_final:
  assumes "0 < len" "b + nat len \<le> length (ints s)" "\<forall>j. alloc_ok s j"
  shows "\<exists>head s' T. generate_avl (Some b) len s = Some (Return head s')
     \<and> build_inv (arr_vals s b len) (length (nodes s)) s head (nat len) s' T"
proof -
  have "valid_array s (Some b) len"
    using assms(1,2) by (simp add: valid_array_def)
  from build_init [OF this assms(3)] obtain s0 where
    i: "generate_avl_init (Some b) len s
       = Return (Some (Some (length (cells s)), Some (length (nodes s)))) s0"
    and v: "build_inv (arr_vals s b len) (length (nodes s)) s (Some (length (cells s))) 1 s0
          (Nd Lf (length (nodes s)) (arr_vals s b len ! 0) 0 Lf)"
    by auto
  from assms(1) have "1 \<le> nat len" "nat len \<le> nat len" by linarith+
  from build_prefix [OF v assms(2) refl this] assms(1) obtain s' T where
    "for_i (Some b) len (Some (length (cells s))) 1 (Some (length (nodes s))) [] s0
       = Some (Return (ptr T, []) s')"
    "build_inv (arr_vals s b len) (length (nodes s)) s (Some (length (cells s))) (nat len) s' T"
    by auto
  with i show ?thesis
    by (auto simp: generate_avl_def)
qed

lemma all_balanced_tree:
  "tree_at (nodes s) t \<Longrightarrow> avl t \<Longrightarrow> hts_ok t \<Longrightarrow> all_balanced s t"
proof (induction t)
  case Lf
  then show ?case by simp
next
  case (Nd l a d k r)
  from Nd.prems have b: "BalanceFactor (Some a) s = Return (ch l - ch r) s"
    by (intro BalanceFactor_tree)
  from Nd.prems have "ch l = int (hgt l)" "ch r = int (hgt r)"
    by (simp_all add: ch_hgt)
  with Nd b show ?case by simp
qed

lemma sorted_map_fst:
  fixes ps :: "('a :: linorder \<times> 'b :: linorder) list"
  shows "sorted ps \<Longrightarrow> sorted (map fst ps)"
proof -
  assume "sorted ps"
  then have "sorted_wrt (\<lambda>p q. fst p \<le> fst q) ps"
    by (rule sorted_wrt_mono_rel [rotated]) (auto simp: less_eq_prod_def)
  then show ?thesis by (simp add: sorted_map)
qed

lemma bst_le_sorted: "sorted (inorder t) \<Longrightarrow> bst_le t"
  by (induction t) (auto simp: sorted_append)

lemma bst_sorted: "sorted (inorder t) \<Longrightarrow> distinct (inorder t) \<Longrightarrow> bst t"
  by (induction t) (force simp: sorted_append)+

lemma rec_height_hgt: "t \<noteq> Lf \<Longrightarrow> rec_height t = int (hgt t) - 1"
  by (induction t) (auto simp: max_def)

lemma heights_cached_ok: "hts_ok t \<Longrightarrow> heights_cached t"
proof (induction t)
  case Lf
  then show ?case by simp
next
  case (Nd l a d k r)
  have "rec_height (Nd l a d k r) = int (hgt (Nd l a d k r)) - 1"
    by (rule rec_height_hgt) simp
  with Nd show ?case by (simp del: rec_height.simps)
qed

lemma build_inv_order:
  assumes "build_inv vals n0 s0 head k s T" "k \<le> length vals"
  shows "sorted (inorder T)" "distinct vals \<Longrightarrow> distinct (inorder T)"
proof -
  from assms(1) have so: "sorted (pairs T)"
    and se: "set (pairs T) = (\<lambda>j. (vals ! j, n0 + j)) ` {..<k}"
    and h: "holds_tree s head T"
    by (simp_all add: build_inv_def)
  from sorted_map_fst [OF so] show "sorted (inorder T)"
    by (simp add: map_fst_pairs)
  assume dv: "distinct vals"
  from holds_treeD(2) [OF h] have "distinct (map snd (pairs T))"
    by (simp add: map_snd_pairs)
  then have dp: "distinct (pairs T)"
    by (simp add: distinct_map)
  have "inj_on fst (set (pairs T))"
    unfolding se using dv assms(2) by (auto simp: inj_on_def nth_eq_iff_index_eq)
  with dp have "distinct (map fst (pairs T))"
    by (simp add: distinct_map)
  then show "distinct (inorder T)"
    by (simp add: map_fst_pairs)
qed

lemma length_arr_vals: "b + nat len \<le> length (ints s) \<Longrightarrow> length (arr_vals s b len) = nat len"
  by (simp add: arr_vals_def)

lemma build_inv_stable:
  assumes "build_inv vals n0 s0 head n s T" "n = length vals"
  shows "inorder T = sort vals"
    and "map (\<lambda>a. a - n0) (addrs T) = sort_key (\<lambda>j. vals ! j) [0..<n]"
    and "inorder T = map (\<lambda>a. vals ! (a - n0)) (addrs T)"
proof -
  from assms(1) have so: "sorted (pairs T)"
    and se: "set (pairs T) = (\<lambda>j. (vals ! j, n0 + j)) ` {..<n}"
    and h: "holds_tree s head T"
    by (simp_all add: build_inv_def)
  let ?js = "map (\<lambda>a. a - n0) (addrs T)"
  have p: "(vals ! (snd p - n0), n0 + (snd p - n0)) = p" if "p \<in> set (pairs T)" for p
    using that se by auto
  have "map (\<lambda>j. (vals ! j, n0 + j)) ?js = map (\<lambda>p. (vals ! (snd p - n0), n0 + (snd p - n0))) (pairs T)"
    by (simp add: map_snd_pairs [symmetric] comp_def)
  also have "\<dots> = pairs T"
    using p by (simp add: map_idI)
  finally have e: "map (\<lambda>j. (vals ! j, n0 + j)) ?js = pairs T" .
  with so have s1: "sorted (map (\<lambda>j. (vals ! j, n0 + j)) ?js)"
    by simp
  have "set ?js = (\<lambda>p. snd p - n0) ` set (pairs T)"
    by (simp add: map_snd_pairs [symmetric] image_image)
  also have "\<dots> = {..<n}"
    unfolding se by (simp add: image_image)
  finally have s2: "set ?js = {..<n}" .
  have ge: "n0 \<le> a" if "a \<in> set (addrs T)" for a
  proof -
    from that have "a \<in> snd ` set (pairs T)"
      by (simp add: map_snd_pairs [symmetric])
    then show ?thesis unfolding se by auto
  qed
  have "inj_on (\<lambda>a. a - n0) (set (addrs T))"
    by (rule inj_onI) (use ge in \<open>auto dest!: ge\<close>)
  with holds_treeD(2) [OF h] have s3: "distinct ?js"
    by (simp add: distinct_map)
  note st = stable_order [OF s1 s2 s3 assms(2)]
  have "inorder T = map fst (pairs T)"
    by (simp add: map_fst_pairs)
  also have "\<dots> = map (\<lambda>j. vals ! j) ?js"
    unfolding e [symmetric] by (simp add: comp_def)
  finally have i: "inorder T = map (\<lambda>j. vals ! j) ?js" .
  with st(1) show "inorder T = sort vals" by simp
  from st(2) show "?js = sort_key (\<lambda>j. vals ! j) [0..<n]" .
  from i show "inorder T = map (\<lambda>a. vals ! (a - n0)) (addrs T)"
    by (simp add: comp_def)
qed

lemma run_10_20_30:
  "observe (generate_avl (Some 0) 3 (mem0 [10, 20, 30])) =
     Some (Some 0,
       [Some \<lparr>data = 10, height = 0, left = None, right = None\<rparr>,
        Some \<lparr>data = 20, height = 1, left = Some 0, right = Some 2\<rparr>,
        Some \<lparr>data = 30, height = 0, left = None, right = None\<rparr>],
       [Some 1])"
  by code_simp

lemma run_30_10_20:
  "observe (generate_avl (Some 0) 3 (mem0 [30, 10, 20])) =
     Some (Some 0,
       [Some \<lparr>data = 30, height = 0, left = None, right = None\<rparr>,
        Some \<lparr>data = 10, height = 0, left = None, right = None\<rparr>,
        Some \<lparr>data = 20, height = 1, left = Some 1, right = Some 0\<rparr>],
       [Some 2])"
  by code_simp



lemma tree_at_unique: "tree_at h t \<Longrightarrow> tree_at h t' \<Longrightarrow> ptr t = ptr t' \<Longrightarrow> t = t'"
proof (induction t arbitrary: t')
  case Lf
  then show ?case by (cases t') simp_all
next
  case (Nd l a d k r)
  from Nd.prems(3) obtain l' d' k' r' where t': "t' = Nd l' a d' k' r'"
    by (cases t') auto
  with Nd.prems have e: "d' = d" "k' = k" and p: "ptr l = ptr l'" "ptr r = ptr r'"
    and s: "tree_at h l" "tree_at h l'" "tree_at h r" "tree_at h r'"
    by auto
  from Nd.IH(1) [OF s(1,2) p(1)] Nd.IH(2) [OF s(3,4) p(2)] e t' show ?case by simp
qed

lemma run_10_10_10:
  "observe (generate_avl (Some 0) 3 (mem0 [10, 10, 10])) =
     Some (Some 0,
       [Some \<lparr>data = 10, height = 0, left = None, right = None\<rparr>,
        Some \<lparr>data = 10, height = 1, left = Some 0, right = Some 2\<rparr>,
        Some \<lparr>data = 10, height = 0, left = None, right = None\<rparr>],
       [Some 1])"
  by code_simp

lemma num_nodes_pairs: "num_nodes t = int (length (pairs t))"
  by (induction t) auto

lemma build_inv_size:
  assumes "build_inv vals n0 s0 head n s T"
  shows "num_nodes T = int n"
proof -
  from assms have se: "set (pairs T) = (\<lambda>j. (vals ! j, n0 + j)) ` {..<n}"
    and h: "holds_tree s head T"
    by (simp_all add: build_inv_def)
  from holds_treeD(2) [OF h] have "distinct (map snd (pairs T))"
    by (simp add: map_snd_pairs)
  then have "distinct (pairs T)"
    by (simp add: distinct_map)
  then have "length (pairs T) = card (set (pairs T))"
    by (simp add: distinct_card)
  also have "\<dots> = card {..<n}"
    unfolding se by (rule card_image) (simp add: inj_on_def)
  finally show ?thesis
    by (simp add: num_nodes_pairs)
qed

lemma build_delete:
  assumes "0 < len" "b + nat len \<le> length (ints s)" "\<forall>j. alloc_ok s j"
  shows "\<exists>head s' root s''. generate_avl (Some b) len s = Some (Return head s')
     \<and> get_cell head s' = Return root s' \<and> delete_avl root s' = Some (Return len s'')"
proof -
  from build_final [OF assms] obtain head s' T where
    g: "generate_avl (Some b) len s = Some (Return head s')"
    and i: "build_inv (arr_vals s b len) (length (nodes s)) s head (nat len) s' T"
    by blast
  from i have h: "holds_tree s' head T" and nl: "T \<noteq> Lf"
    by (simp_all add: build_inv_def)
  from build_inv_size [OF i] assms(1) have n: "num_nodes T = len"
    by simp
  from delete_avl_tree [OF holds_treeD [OF h] nl] n
  have "delete_avl (ptr T) s' = Some (Return len (s'\<lparr>nodes := release (post_addrs T) (nodes s')\<rparr>))"
    by simp
  with g holds_tree_cell [OF h] show ?thesis
    by blast
qed


lemma after_each_insertion_mono:
  assumes "after_each_insertion arr len s P" and "\<And>s' head. P s' head \<Longrightarrow> Q s' head"
  shows "after_each_insertion arr len s Q"
  using assms unfolding after_each_insertion_def by blast

section \<open>The claims\<close>

text \<open>
  Claim C1. For an array of \<open>len > 0\<close> integers within the integer memory and an allocator
  that does not fail, \<open>generate_avl\<close> returns a handle to a tree whose inorder traversal
  yields the array's values in ascending order. Equal values keep their order in the
  array: the node for \<open>arr[j]\<close> is the \<open>j\<close>-th node allocated, and the array positions of the
  nodes in inorder are the stable sort of the positions by value.
\<close>

theorem generate_avl_sorts:
  assumes "0 < len" "b + nat len \<le> length (ints s)" "\<forall>j. alloc_ok s j"
  shows "\<exists>head s' t. generate_avl (Some b) len s = Some (Return head s')
     \<and> holds_tree s' head t
     \<and> inorder t = sort (arr_vals s b len)
     \<and> map (\<lambda>a. a - length (nodes s)) (addrs t)
         = sort_key (\<lambda>j. arr_vals s b len ! j) [0..<nat len]
     \<and> inorder t = map (\<lambda>a. arr_vals s b len ! (a - length (nodes s))) (addrs t)"
proof -
  from build_final [OF assms] obtain head s' T where
    g: "generate_avl (Some b) len s = Some (Return head s')"
    and i: "build_inv (arr_vals s b len) (length (nodes s)) s head (nat len) s' T"
    by blast
  have n: "nat len = length (arr_vals s b len)"
    using assms(2) by (simp add: length_arr_vals)
  from i have "holds_tree s' head T"
    by (simp add: build_inv_def)
  with g build_inv_stable [OF i n] show ?thesis
    by blast
qed

theorem generate_avl_sorts_witness:
  "(0 :: int) < 3 \<and> 0 + nat 3 \<le> length (ints (mem0 [3, 1, 2])) \<and> (\<forall>j. alloc_ok (mem0 [3, 1, 2]) j)
   \<and> (\<exists>head s' t. generate_avl (Some 0) 3 (mem0 [3, 1, 2]) = Some (Return head s')
     \<and> holds_tree s' head t \<and> inorder t = [1, 2, 3] \<and> addrs t = [1, 2, 0])"
proof -
  have h: "(0 :: int) < 3" "0 + nat 3 \<le> length (ints (mem0 [3, 1, 2]))"
    "\<forall>j. alloc_ok (mem0 [3, 1, 2]) j"
    by (simp_all add: mem0_def)
  have v: "arr_vals (mem0 [3, 1, 2]) 0 3 = [3, 1, 2]" "length (nodes (mem0 [3, 1, 2])) = 0"
    by (simp_all add: arr_vals_def mem0_def)
  have s: "sort [3, 1, 2 :: int] = [1, 2, 3]"
    "sort_key (\<lambda>j. [3, 1, 2 :: int] ! j) [0..<nat 3] = [1, 2, 0]"
    by code_simp+
  from generate_avl_sorts [OF h] obtain head s' t where
    "generate_avl (Some 0) 3 (mem0 [3, 1, 2]) = Some (Return head s')"
    "holds_tree s' head t" "inorder t = [1, 2, 3]" "addrs t = [1, 2, 0]"
    unfolding v s by auto
  with h show ?thesis
    by (intro conjI exI [of _ head] exI [of _ s'] exI [of _ t])
qed

text \<open>
  Claim C2. After the insertion of each array element (its rebalancing pass included)
  and in the finished tree, every node is balanced: the heights of its subtrees differ
  by at most one, and \<open>BalanceFactor\<close> computes -1, 0 or 1 for it.
\<close>

theorem generate_avl_balanced:
  assumes "0 < len" "b + nat len \<le> length (ints s)" "\<forall>j. alloc_ok s j"
  shows "after_each_insertion (Some b) len s
     (\<lambda>s' head. \<exists>t. holds_tree s' head t \<and> avl t \<and> all_balanced s' t)"
proof (rule build_each [OF assms])
  fix k s' T
  assume "build_inv (arr_vals s b len) (length (nodes s)) s (Some (length (cells s))) k s' T"
  then have h: "holds_tree s' (Some (length (cells s))) T" and a: "avl T" "hts_ok T"
    by (simp_all add: build_inv_def)
  from all_balanced_tree [OF holds_treeD(1) [OF h] a] h a
  show "\<exists>t. holds_tree s' (Some (length (cells s))) t \<and> avl t \<and> all_balanced s' t"
    by blast
qed

theorem generate_avl_balanced_witness:
  "(0 :: int) < 3 \<and> 0 + nat 3 \<le> length (ints (mem0 [3, 1, 2])) \<and> (\<forall>j. alloc_ok (mem0 [3, 1, 2]) j)
   \<and> after_each_insertion (Some 0) 3 (mem0 [3, 1, 2])
       (\<lambda>s' head. \<exists>t. holds_tree s' head t \<and> avl t \<and> all_balanced s' t)"
proof -
  have h: "(0 :: int) < 3" "0 + nat 3 \<le> length (ints (mem0 [3, 1, 2]))"
    "\<forall>j. alloc_ok (mem0 [3, 1, 2]) j"
    by (simp_all add: mem0_def)
  from generate_avl_balanced [OF h] h show ?thesis
    by (intro conjI)
qed

text \<open>
  Claim C3 as stated fails on the code when values repeat: a rotation moves a node
  below an equal one on its left. On the array \<open>[10, 10, 10]\<close> the second 10 becomes the
  root and the first 10 its left child, so the finished tree does not have all values
  of a left subtree strictly less than the node's value.
\<close>

theorem generate_avl_ties_counterexample:
  "observe (generate_avl (Some 0) 3 (mem0 [10, 10, 10])) =
     Some (Some 0,
       [Some \<lparr>data = 10, height = 0, left = None, right = None\<rparr>,
        Some \<lparr>data = 10, height = 1, left = Some 0, right = Some 2\<rparr>,
        Some \<lparr>data = 10, height = 0, left = None, right = None\<rparr>],
       [Some 1])
   \<and> \<not> bst (Nd (Nd Lf 0 10 0 Lf) 1 10 1 (Nd Lf 2 10 0 Lf))
   \<and> \<not> after_each_insertion (Some 0) 3 (mem0 [10, 10, 10])
         (\<lambda>s' head. \<exists>t. holds_tree s' head t \<and> bst t)"
proof (intro conjI)
  show "observe (generate_avl (Some 0) 3 (mem0 [10, 10, 10])) =
     Some (Some 0,
       [Some \<lparr>data = 10, height = 0, left = None, right = None\<rparr>,
        Some \<lparr>data = 10, height = 1, left = Some 0, right = Some 2\<rparr>,
        Some \<lparr>data = 10, height = 0, left = None, right = None\<rparr>],
       [Some 1])"
    by (rule run_10_10_10)
  show nb: "\<not> bst (Nd (Nd Lf 0 10 0 Lf) 1 10 1 (Nd Lf 2 10 0 Lf))"
    by simp
  show "\<not> after_each_insertion (Some 0) 3 (mem0 [10, 10, 10])
         (\<lambda>s' head. \<exists>t. holds_tree s' head t \<and> bst t)"
  proof
    assume "after_each_insertion (Some 0) 3 (mem0 [10, 10, 10])
         (\<lambda>s' head. \<exists>t. holds_tree s' head t \<and> bst t)"
    then obtain head s' t where
      g: "generate_avl (Some 0) 3 (mem0 [10, 10, 10]) = Some (Return head s')"
      and h: "holds_tree s' head t" and b: "bst t"
      unfolding after_each_insertion_def by blast
    from observeD [OF run_10_10_10] g have
      s': "head = Some 0"
      "nodes s' = [Some \<lparr>data = 10, height = 0, left = None, right = None\<rparr>,
        Some \<lparr>data = 10, height = 1, left = Some 0, right = Some 2\<rparr>,
        Some \<lparr>data = 10, height = 0, left = None, right = None\<rparr>]"
      "cells s' = [Some 1]"
      by auto
    with h have t: "tree_at (nodes s') t" "ptr t = Some 1"
      by (simp_all add: holds_tree_def)
    have "tree_at (nodes s') (Nd (Nd Lf 0 10 0 Lf) 1 10 1 (Nd Lf 2 10 0 Lf))"
      unfolding s' by simp
    from tree_at_unique [OF t(1) this] t(2) have "t = Nd (Nd Lf 0 10 0 Lf) 1 10 1 (Nd Lf 2 10 0 Lf)"
      by simp
    with b nb show False by simp
  qed
qed


text \<open>
  Claim C3, amended. After the insertion of each array element and in the finished
  tree, for every node all values in its left subtree are less than or equal to the
  node's value and all values in its right subtree are greater than or equal to it;
  when the array elements are pairwise distinct, the values in the left subtree are
  strictly less.
\<close>

theorem generate_avl_ordered:
  assumes "0 < len" "b + nat len \<le> length (ints s)" "\<forall>j. alloc_ok s j"
  shows "after_each_insertion (Some b) len s
     (\<lambda>s' head. \<exists>t. holds_tree s' head t \<and> bst_le t
        \<and> (distinct (arr_vals s b len) \<longrightarrow> bst t))"
proof (rule build_each [OF assms])
  fix k s' T
  assume k: "k \<le> nat len"
    and i: "build_inv (arr_vals s b len) (length (nodes s)) s (Some (length (cells s))) k s' T"
  from i have h: "holds_tree s' (Some (length (cells s))) T"
    by (simp add: build_inv_def)
  from k assms(2) have "k \<le> length (arr_vals s b len)"
    by (simp add: length_arr_vals)
  note o = build_inv_order [OF i this]
  from o have "bst_le T" "distinct (arr_vals s b len) \<longrightarrow> bst T"
    by (auto intro: bst_le_sorted bst_sorted)
  with h show "\<exists>t. holds_tree s' (Some (length (cells s))) t \<and> bst_le t
      \<and> (distinct (arr_vals s b len) \<longrightarrow> bst t)"
    by blast
qed

theorem generate_avl_ordered_witness:
  "(0 :: int) < 3 \<and> 0 + nat 3 \<le> length (ints (mem0 [3, 1, 2])) \<and> (\<forall>j. alloc_ok (mem0 [3, 1, 2]) j)
   \<and> distinct (arr_vals (mem0 [3, 1, 2]) 0 3)
   \<and> after_each_insertion (Some 0) 3 (mem0 [3, 1, 2])
       (\<lambda>s' head. \<exists>t. holds_tree s' head t \<and> bst_le t \<and> bst t)"
proof -
  have h: "(0 :: int) < 3" "0 + nat 3 \<le> length (ints (mem0 [3, 1, 2]))"
    "\<forall>j. alloc_ok (mem0 [3, 1, 2]) j"
    by (simp_all add: mem0_def)
  have d: "distinct (arr_vals (mem0 [3, 1, 2]) 0 3)"
    by (simp add: arr_vals_def mem0_def)
  have "after_each_insertion (Some 0) 3 (mem0 [3, 1, 2])
       (\<lambda>s' head. \<exists>t. holds_tree s' head t \<and> bst_le t \<and> bst t)"
    by (rule after_each_insertion_mono [OF generate_avl_ordered [OF h]]) (use d in blast)
  with h d show ?thesis
    by (intro conjI)
qed

text \<open>
  Claim C4. In the tree \<open>generate_avl\<close> returns, the stored height of every node is the
  recursively defined height of its subtree.
\<close>

theorem generate_avl_heights:
  assumes "0 < len" "b + nat len \<le> length (ints s)" "\<forall>j. alloc_ok s j"
  shows "\<exists>head s' t. generate_avl (Some b) len s = Some (Return head s')
     \<and> holds_tree s' head t \<and> heights_cached t"
proof -
  from build_final [OF assms] obtain head s' T where
    g: "generate_avl (Some b) len s = Some (Return head s')"
    and i: "build_inv (arr_vals s b len) (length (nodes s)) s head (nat len) s' T"
    by blast
  from i have "holds_tree s' head T" "hts_ok T"
    by (simp_all add: build_inv_def)
  with g show ?thesis
    by (blast intro: heights_cached_ok)
qed

theorem generate_avl_heights_witness:
  "(0 :: int) < 3 \<and> 0 + nat 3 \<le> length (ints (mem0 [3, 1, 2])) \<and> (\<forall>j. alloc_ok (mem0 [3, 1, 2]) j)
   \<and> (\<exists>head s' t. generate_avl (Some 0) 3 (mem0 [3, 1, 2]) = Some (Return head s')
     \<and> holds_tree s' head t \<and> heights_cached t)"
proof -
  have h: "(0 :: int) < 3" "0 + nat 3 \<le> length (ints (mem0 [3, 1, 2]))"
    "\<forall>j. alloc_ok (mem0 [3, 1, 2]) j"
    by (simp_all add: mem0_def)
  from generate_avl_heights [OF h] h show ?thesis
    by (intro conjI)
qed

text \<open>
  Claim C5. \<open>generate_avl\<close> on the arrays \<open>[10, 20, 30]\<close> and \<open>[30, 10, 20]\<close> returns a
  handle to the same tree: the root holds 20 with stored height 1, its left child
  holds 10 and its right child holds 30, both with stored height 0, and the tree has
  no other node.
\<close>

theorem generate_avl_three_values:
  "(\<exists>h s t. generate_avl (Some 0) 3 (mem0 [10, 20, 30]) = Some (Return h s) \<and> holds_tree s h t
       \<and> erase t = Node (Node Empty 10 0 Empty) 20 1 (Node Empty 30 0 Empty))
   \<and> (\<exists>h s t. generate_avl (Some 0) 3 (mem0 [30, 10, 20]) = Some (Return h s) \<and> holds_tree s h t
       \<and> erase t = Node (Node Empty 10 0 Empty) 20 1 (Node Empty 30 0 Empty))"
proof (intro conjI)
  from observeD [OF run_10_20_30] obtain s where
    "generate_avl (Some 0) 3 (mem0 [10, 20, 30]) = Some (Return (Some 0) s)"
    "nodes s =
       [Some \<lparr>data = 10, height = 0, left = None, right = None\<rparr>,
        Some \<lparr>data = 20, height = 1, left = Some 0, right = Some 2\<rparr>,
        Some \<lparr>data = 30, height = 0, left = None, right = None\<rparr>]"
    "cells s = [Some 1]"
    by blast
  then show "\<exists>h s t. generate_avl (Some 0) 3 (mem0 [10, 20, 30]) = Some (Return h s)
       \<and> holds_tree s h t
       \<and> erase t = Node (Node Empty 10 0 Empty) 20 1 (Node Empty 30 0 Empty)"
    by (intro exI [of _ "Some 0"] exI [of _ s]
          exI [of _ "Nd (Nd Lf 0 10 0 Lf) 1 20 1 (Nd Lf 2 30 0 Lf)"])
       (simp add: holds_tree_def)
next
  from observeD [OF run_30_10_20] obtain s where
    "generate_avl (Some 0) 3 (mem0 [30, 10, 20]) = Some (Return (Some 0) s)"
    "nodes s =
       [Some \<lparr>data = 30, height = 0, left = None, right = None\<rparr>,
        Some \<lparr>data = 10, height = 0, left = None, right = None\<rparr>,
        Some \<lparr>data = 20, height = 1, left = Some 1, right = Some 0\<rparr>]"
    "cells s = [Some 2]"
    by blast
  then show "\<exists>h s t. generate_avl (Some 0) 3 (mem0 [30, 10, 20]) = Some (Return h s)
       \<and> holds_tree s h t
       \<and> erase t = Node (Node Empty 10 0 Empty) 20 1 (Node Empty 30 0 Empty)"
    by (intro exI [of _ "Some 0"] exI [of _ s]
          exI [of _ "Nd (Nd Lf 1 10 0 Lf) 2 20 1 (Nd Lf 0 30 0 Lf)"])
       (simp add: holds_tree_def)
qed

text \<open>
  Claim C6. Called with a \<open>NULL\<close> array or with length 0, \<open>generate_avl\<close> reports the
  invalid input (the ERROR line \<open>Invalid array.\<close>) and returns \<open>NULL\<close>; the memory it
  leaves differs from the one it got in that log line only, so no node and no handle
  was allocated or written.
\<close>

theorem generate_avl_invalid_input:
  "arr = None \<or> len = 0 \<Longrightarrow>
   generate_avl arr len s =
     Some (Return None (s\<lparr>logs := logs s @ [Log ERROR ''Invalid array.'' []]\<rparr>))"
  by (simp add: generate_avl_def generate_avl_init_def log_msg_def)

theorem generate_avl_invalid_input_witness:
  "((None :: nat option) = None \<or> (3 :: int) = 0)
   \<and> generate_avl None 3 (mem0 [1, 2, 3]) =
       Some (Return None ((mem0 [1, 2, 3])\<lparr>logs := logs (mem0 [1, 2, 3]) @ [Log ERROR ''Invalid array.'' []]\<rparr>))
   \<and> (Some (0 :: nat) = None \<or> (0 :: int) = 0)
   \<and> generate_avl (Some 0) 0 (mem0 [1, 2, 3]) =
       Some (Return None ((mem0 [1, 2, 3])\<lparr>logs := logs (mem0 [1, 2, 3]) @ [Log ERROR ''Invalid array.'' []]\<rparr>))"
  using generate_avl_invalid_input [of None 3 "mem0 [1, 2, 3]"]
    generate_avl_invalid_input [of "Some 0" 0 "mem0 [1, 2, 3]"]
  by simp

text \<open>
  Claim C7. Applied to the root of a tree of the memory, \<open>delete_avl\<close> returns the
  number of its nodes and leaves every node of the tree freed (and every other object
  as it was); applied to \<open>NULL\<close> it reports the invalid root (the ERROR line
  \<open>root invalid.\<close> and the result -1) and frees nothing. In particular, applied to the
  root of the tree \<open>generate_avl\<close> built from \<open>len\<close> values it returns \<open>len\<close>.
\<close>

theorem delete_avl_frees_tree:
  "(tree_at (nodes s) t \<and> distinct (addrs t) \<and> t \<noteq> Lf \<longrightarrow>
      delete_avl (ptr t) s =
        Some (Return (num_nodes t) (s\<lparr>nodes := release (post_addrs t) (nodes s)\<rparr>))
      \<and> (\<forall>a \<in> set (addrs t). release (post_addrs t) (nodes s) ! a = None)
      \<and> (\<forall>a. a \<notin> set (addrs t) \<longrightarrow> release (post_addrs t) (nodes s) ! a = nodes s ! a))
   \<and> delete_avl None s =
        Some (Return (- 1) (s\<lparr>logs := logs s @ [Log ERROR ''root invalid.'' []]\<rparr>))
   \<and> (0 < len \<and> b + nat len \<le> length (ints s) \<and> (\<forall>j. alloc_ok s j) \<longrightarrow>
        (\<exists>head s' root s''. generate_avl (Some b) len s = Some (Return head s')
           \<and> get_cell head s' = Return root s'
           \<and> delete_avl root s' = Some (Return len s'')))"
proof (intro conjI impI)
  assume h: "tree_at (nodes s) t \<and> distinct (addrs t) \<and> t \<noteq> Lf"
  then show "delete_avl (ptr t) s =
      Some (Return (num_nodes t) (s\<lparr>nodes := release (post_addrs t) (nodes s)\<rparr>))"
    by (simp add: delete_avl_tree)
  have "a < length (nodes s)" if "a \<in> set (addrs t)" for a
    using h that by (blast intro: tree_at_addr_valid)
  then show "\<forall>a \<in> set (addrs t). release (post_addrs t) (nodes s) ! a = None"
    by (simp add: release_freed)
  show "\<forall>a. a \<notin> set (addrs t) \<longrightarrow> release (post_addrs t) (nodes s) ! a = nodes s ! a"
    by (simp add: release_nth)
next
  show "delete_avl None s =
      Some (Return (- 1) (s\<lparr>logs := logs s @ [Log ERROR ''root invalid.'' []]\<rparr>))"
    by (rule delete_avl_NULL)
next
  assume "0 < len \<and> b + nat len \<le> length (ints s) \<and> (\<forall>j. alloc_ok s j)"
  then show "\<exists>head s' root s''. generate_avl (Some b) len s = Some (Return head s')
      \<and> get_cell head s' = Return root s' \<and> delete_avl root s' = Some (Return len s'')"
    by (intro build_delete) simp_all
qed

theorem delete_avl_frees_tree_witness:
  "tree_at [Some \<lparr>data = 10, height = 0, left = None, right = None\<rparr>,
            Some \<lparr>data = 20, height = 1, left = Some 0, right = Some 2\<rparr>,
            Some \<lparr>data = 30, height = 0, left = None, right = None\<rparr>]
      (Nd (Nd Lf 0 10 0 Lf) 1 20 1 (Nd Lf 2 30 0 Lf))
   \<and> distinct (addrs (Nd (Nd Lf 0 10 0 Lf) 1 20 1 (Nd Lf 2 30 0 Lf)))
   \<and> Nd (Nd Lf 0 10 0 Lf) 1 20 1 (Nd Lf 2 30 0 Lf) \<noteq> Lf
   \<and> delete_avl (Some 1)
       ((mem0 [])\<lparr>nodes := [Some \<lparr>data = 10, height = 0, left = None, right = None\<rparr>,
            Some \<lparr>data = 20, height = 1, left = Some 0, right = Some 2\<rparr>,
            Some \<lparr>data = 30, height = 0, left = None, right = None\<rparr>]\<rparr>)
     = Some (Return 3 ((mem0 [])\<lparr>nodes := [None, None, None]\<rparr>))
   \<and> (0 :: int) < 3 \<and> 0 + nat 3 \<le> length (ints (mem0 [3, 1, 2]))
   \<and> (\<forall>j. alloc_ok (mem0 [3, 1, 2]) j)
   \<and> (\<exists>head s' root s''. generate_avl (Some 0) 3 (mem0 [3, 1, 2]) = Some (Return head s')
         \<and> get_cell head s' = Return root s' \<and> delete_avl root s' = Some (Return 3 s''))"
  using delete_avl_frees_tree [of
      "(mem0 [])\<lparr>nodes := [Some \<lparr>data = 10, height = 0, left = None, right = None\<rparr>,
            Some \<lparr>data = 20, height = 1, left = Some 0, right = Some 2\<rparr>,
            Some \<lparr>data = 30, height = 0, left = None, right = None\<rparr>]\<rparr>"
      "Nd (Nd Lf 0 10 0 Lf) 1 20 1 (Nd Lf 2 30 0 Lf)"]
    delete_avl_frees_tree [of "mem0 [3, 1, 2]" _ 3 0]
  by (simp add: mem0_def)

text \<open>
  Claim C8 fails on the code. Only the first allocation is checked. When the
  allocation of the handle fails, \<open>*head = root\<close> writes through \<open>NULL\<close>; when the
  allocation of a new leaf fails, \<open>root->right->data = arr[i]\<close> does. Both runs crash
  instead of reporting the failure: here the array is \<open>[1, 2]\<close> and the second, or the
  third, allocation request fails.
\<close>

theorem generate_avl_unchecked_allocations:
  "generate_avl (Some 0) 2 ((mem0 [1, 2])\<lparr>alloc_ok := (\<lambda>k. k \<noteq> 1)\<rparr>) = Some Crash
   \<and> generate_avl (Some 0) 2 ((mem0 [1, 2])\<lparr>alloc_ok := (\<lambda>k. k \<noteq> 2)\<rparr>) = Some Crash"
proof
  show "generate_avl (Some 0) 2 ((mem0 [1, 2])\<lparr>alloc_ok := (\<lambda>k. k \<noteq> 1)\<rparr>) = Some Crash"
    by (simp add: generate_avl_def generate_avl_init_def mem0_def calloc_avl_t_def
          calloc_avl_p_def arr_at_def set_data_def get_node_def put_node_def set_cell_def)
next
  show "generate_avl (Some 0) 2 ((mem0 [1, 2])\<lparr>alloc_ok := (\<lambda>k. k \<noteq> 2)\<rparr>) = Some Crash"
    apply (simp add: generate_avl_def generate_avl_init_def mem0_def calloc_avl_t_def
          calloc_avl_p_def arr_at_def set_data_def get_node_def put_node_def set_cell_def
          for_i.simps)
    apply (subst while_root.simps)
    apply (simp add: insert_right_def calloc_avl_t_def arr_at_def get_data_def get_right_def
          set_right_def set_data_def get_node_def put_node_def)
    done
qed

text \<open>
  Claim C9. \<open>print_avl\<close> reads \<open>parent->data\<close> for every present root, the root of the
  first call included: with a present root and a parent that is \<open>NULL\<close> (or no
  allocated node) the call crashes. With a present parent and the root of a tree, it
  returns the number of nodes of the tree after logging one INFO line per node (and
  per child link); the result is at least 1 and no ERROR line is logged, so the error
  branch for an absent root is never taken.
\<close>

theorem print_avl_reads_parent:
  "(get_node root s = Return n s \<and> get_node parent s = Crash \<longrightarrow>
      print_avl root parent s = Some Crash)
   \<and> (tree_at (nodes s) t \<and> t \<noteq> Lf \<and> get_node parent s = Return pn s \<longrightarrow>
        print_avl (ptr t) parent s =
          Some (Return (num_nodes t) (s\<lparr>logs := logs s @ print_log (data pn) t\<rparr>))
        \<and> 1 \<le> num_nodes t
        \<and> (\<forall>fmt args. Log ERROR fmt args \<notin> set (print_log (data pn) t)))"
proof (intro conjI impI)
  assume "get_node root s = Return n s \<and> get_node parent s = Crash"
  then show "print_avl root parent s = Some Crash"
    by (simp add: print_avl_no_parent)
next
  assume h: "tree_at (nodes s) t \<and> t \<noteq> Lf \<and> get_node parent s = Return pn s"
  then have "get_data parent s = Return (data pn) s"
    by (simp add: get_data_def)
  with h show "print_avl (ptr t) parent s =
      Some (Return (num_nodes t) (s\<lparr>logs := logs s @ print_log (data pn) t\<rparr>))"
    by (simp add: print_avl_tree)
  from h show "1 \<le> num_nodes t"
    by (simp add: num_nodes_pos)
  show "\<forall>fmt args. Log ERROR fmt args \<notin> set (print_log (data pn) t)"
    by (simp add: print_log_INFO)
qed

theorem print_avl_reads_parent_witness:
  "get_node (Some 0) ((mem0 [])\<lparr>nodes := [Some \<lparr>data = 7, height = 0, left = None, right = None\<rparr>]\<rparr>)
     = Return \<lparr>data = 7, height = 0, left = None, right = None\<rparr>
         ((mem0 [])\<lparr>nodes := [Some \<lparr>data = 7, height = 0, left = None, right = None\<rparr>]\<rparr>)
   \<and> get_node None ((mem0 [])\<lparr>nodes := [Some \<lparr>data = 7, height = 0, left = None, right = None\<rparr>]\<rparr>)
     = Crash
   \<and> print_avl (Some 0) None
       ((mem0 [])\<lparr>nodes := [Some \<lparr>data = 7, height = 0, left = None, right = None\<rparr>]\<rparr>)
     = Some Crash
   \<and> tree_at [Some \<lparr>data = 7, height = 0, left = None, right = None\<rparr>] (Nd Lf 0 7 0 Lf)
   \<and> Nd Lf 0 7 0 Lf \<noteq> Lf
   \<and> print_avl (Some 0) (Some 0)
       ((mem0 [])\<lparr>nodes := [Some \<lparr>data = 7, height = 0, left = None, right = None\<rparr>]\<rparr>)
     = Some (Return 1
         ((mem0 [])\<lparr>nodes := [Some \<lparr>data = 7, height = 0, left = None, right = None\<rparr>],
            logs := [Log INFO ''data: %6d,  parent: %6d'' [7, 7]]\<rparr>))"
  using print_avl_reads_parent [of "Some 0"
      "(mem0 [])\<lparr>nodes := [Some \<lparr>data = 7, height = 0, left = None, right = None\<rparr>]\<rparr>"
      "\<lparr>data = 7, height = 0, left = None, right = None\<rparr>" None "Nd Lf 0 7 0 Lf"
      "\<lparr>data = 7, height = 0, left = None, right = None\<rparr>"]
    print_avl_reads_parent [of "Some 0"
      "(mem0 [])\<lparr>nodes := [Some \<lparr>data = 7, height = 0, left = None, right = None\<rparr>]\<rparr>"
      "\<lparr>data = 7, height = 0, left = None, right = None\<rparr>" "Some 0" "Nd Lf 0 7 0 Lf"
      "\<lparr>data = 7, height = 0, left = None, right = None\<rparr>"]
  by (simp add: mem0_def get_node_def)

text \<open>
  Claim C10. \<open>generate_avl\<close> never writes the integer memory: whenever a call returns,
  the integer memory (and with it the array the call was given) is what it was
  before the call.
\<close>

theorem generate_avl_keeps_array:
  "generate_avl arr len s = Some (Return h s') \<Longrightarrow> ints s' = ints s"
  by (auto simp: generate_avl_def split: outcome.splits option.splits
      dest!: generate_avl_init_ints for_i_ints)

theorem generate_avl_keeps_array_witness:
  "\<exists>h s'. generate_avl (Some 0) 3 (mem0 [10, 20, 30]) = Some (Return h s')
     \<and> ints s' = ints (mem0 [10, 20, 30])"
proof -
  from observeD [OF run_10_20_30] obtain s' where
    r: "generate_avl (Some 0) 3 (mem0 [10, 20, 30]) = Some (Return (Some 0) s')"
    by blast
  from generate_avl_keeps_array [OF r] r show ?thesis
    by blast
qed


end
